theory Spec2Isabelle
  imports Main "HOL-Library.Multiset" "HOL-Library.Word" "HOL-Library.Signed_Division"
begin

section \<open>Binary max-heap algorithms of \<^verbatim>\<open>mas/core/heap.hpp\<close>\<close>

text \<open>
  The range \<open>[first, last)\<close> is a list; an iterator \<open>first + i\<close> is the index \<open>i\<close>.
  The comparison functor \<open>compare(a, b)\<close> (true if \<open>a < b\<close>) is the parameter \<open>lt\<close>;
  the overloads without a functor are the instance \<open>lt = (<)\<close>.
  A move \<open>*(first + i) = std::move(*(first + j))\<close> is the update \<open>a[i := a ! j]\<close>:
  the moved-from slot keeps its old content until it is overwritten.
\<close>

subsection \<open>Sift primitives\<close>

text \<open>\<open>__up_heap(first, pos, p, compare)\<close>: the loop variable \<open>child\<close> is the argument.\<close>

function up_heap :: "('a \<Rightarrow> 'a \<Rightarrow> bool) \<Rightarrow> 'a list \<Rightarrow> nat \<Rightarrow> 'a \<Rightarrow> 'a list" where
  "up_heap lt a child p =
     (let parent = (child - 1) div 2 in
      if child > 0 \<and> lt (a ! parent) p
      then up_heap lt (a[child := a ! parent]) parent p
      else a[child := p])"
  by pat_completeness auto
termination
  by (relation "measure (\<lambda>(lt, a, child, p). child)") auto

declare up_heap.simps [simp del]

text \<open>
  \<open>__down_heap(first, length, hole, p, compare)\<close>: the loop variable \<open>parent\<close> is the
  argument \<open>hole\<close>; \<open>child\<close> is recomputed as \<open>2 * parent + 1\<close> at the head of each round.
\<close>

function down_heap :: "('a \<Rightarrow> 'a \<Rightarrow> bool) \<Rightarrow> 'a list \<Rightarrow> nat \<Rightarrow> nat \<Rightarrow> 'a \<Rightarrow> 'a list" where
  "down_heap lt a len hole p =
     (let child = 2 * hole + 1 in
      if child < len then
        let child = (if child < len - 1 \<and> lt (a ! child) (a ! (child + 1))
                     then child + 1 else child) in
        if lt (a ! child) p then a[hole := p]
        else down_heap lt (a[hole := a ! child]) len child p
      else a[hole := p])"
  by pat_completeness auto
termination
  by (relation "measure (\<lambda>(lt, a, len, hole, p). len - hole)") auto

declare down_heap.simps [simp del]


subsection \<open>Basic operations\<close>

text \<open>\<open>__pop_heap(first, last, result, compare)\<close> with \<open>result = last\<close>, as every caller
  passes it; \<open>lst\<close> is the index \<open>last - first\<close> of the slot that receives the root
  (the caller has decremented \<open>last\<close>).\<close>

definition pop_heap_inner :: "('a \<Rightarrow> 'a \<Rightarrow> bool) \<Rightarrow> 'a list \<Rightarrow> nat \<Rightarrow> 'a list" where
  "pop_heap_inner lt a lst =
     (let v = a ! lst;
          a = a[lst := a ! 0] in
      down_heap lt a lst 0 v)"

text \<open>\<open>make_heap\<close>: \<open>for (parent = len / 2; parent-- > 0;)\<close>; the last argument of the
  loop is the value of \<open>parent\<close> before the test-and-decrement.\<close>

fun make_heap_loop :: "('a \<Rightarrow> 'a \<Rightarrow> bool) \<Rightarrow> 'a list \<Rightarrow> nat \<Rightarrow> nat \<Rightarrow> 'a list" where
  "make_heap_loop lt a len 0 = a"
| "make_heap_loop lt a len (Suc parent) =
     make_heap_loop lt (down_heap lt a len parent (a ! parent)) len parent"

definition make_heap :: "('a \<Rightarrow> 'a \<Rightarrow> bool) \<Rightarrow> 'a list \<Rightarrow> 'a list" where
  "make_heap lt a = make_heap_loop lt a (length a) (length a div 2)"

text \<open>\<open>push_heap\<close>: \<open>lastPos = last - first - 1\<close> is signed; on the empty range it is \<open>-1\<close>,
  the test \<open>lastPos > 0\<close> fails first and no element is read.\<close>

definition push_heap :: "('a \<Rightarrow> 'a \<Rightarrow> bool) \<Rightarrow> 'a list \<Rightarrow> 'a list" where
  "push_heap lt a =
     (let lastPos = int (length a) - 1;
          parent = (lastPos - 1) sdiv 2 in
      if lastPos > 0 \<and> lt (a ! nat parent) (a ! (length a - 1))
      then up_heap lt a (nat lastPos) (a ! nat lastPos)
      else a)"

definition pop_heap :: "('a \<Rightarrow> 'a \<Rightarrow> bool) \<Rightarrow> 'a list \<Rightarrow> 'a list" where
  "pop_heap lt a = (if length a > 1 then pop_heap_inner lt a (length a - 1) else a)"

function sort_heap_loop :: "('a \<Rightarrow> 'a \<Rightarrow> bool) \<Rightarrow> 'a list \<Rightarrow> nat \<Rightarrow> 'a list" where
  "sort_heap_loop lt a lst =
     (if lst > 1 then
        let lst = lst - 1 in sort_heap_loop lt (pop_heap_inner lt a lst) lst
      else a)"
  by pat_completeness auto
termination
  by (relation "measure (\<lambda>(lt, a, lst). lst)") auto

declare sort_heap_loop.simps [simp del]

definition sort_heap :: "('a \<Rightarrow> 'a \<Rightarrow> bool) \<Rightarrow> 'a list \<Rightarrow> 'a list" where
  "sort_heap lt a = sort_heap_loop lt a (length a)"

text \<open>\<open>is_heap_until\<close>: the iterators \<open>parent\<close> and \<open>child\<close> are indices; the loop returns
  the index of the first child that compares greater than its parent, or \<open>last\<close>.\<close>

function is_heap_until_loop :: "('a \<Rightarrow> 'a \<Rightarrow> bool) \<Rightarrow> 'a list \<Rightarrow> nat \<Rightarrow> nat \<Rightarrow> nat" where
  "is_heap_until_loop lt a parent child =
     (if child < length a then
        if lt (a ! parent) (a ! child) then child
        else let child = child + 1 in
          if child < length a \<and> lt (a ! parent) (a ! child) then child
          else is_heap_until_loop lt a (parent + 1) (child + 1)
      else length a)"
  by pat_completeness auto
termination
  by (relation "measure (\<lambda>(lt, a, parent, child). length a - child)") auto

declare is_heap_until_loop.simps [simp del]

definition is_heap_until :: "('a \<Rightarrow> 'a \<Rightarrow> bool) \<Rightarrow> 'a list \<Rightarrow> nat" where
  "is_heap_until lt a = is_heap_until_loop lt a 0 1"

definition is_heap :: "('a \<Rightarrow> 'a \<Rightarrow> bool) \<Rightarrow> 'a list \<Rightarrow> bool" where
  "is_heap lt a = (is_heap_until lt a = length a)"

subsection \<open>Positional extensions\<close>

text \<open>Reading or writing a slot outside \<open>[first, last)\<close> is undefined behaviour in the
  source; an operation that would do so returns \<open>OutOfRange\<close>.\<close>

datatype error = OutOfRange | DivisionByZero

text \<open>\<open>__pop_heap_pos(first, last, pos, result, compare)\<close> with \<open>result = last\<close>, as
  its only caller passes it; \<open>lst\<close> is the index \<open>last - first\<close> of the
  final slot (the caller has decremented \<open>last\<close>).\<close>

definition pop_heap_pos :: "('a \<Rightarrow> 'a \<Rightarrow> bool) \<Rightarrow> 'a list \<Rightarrow> nat \<Rightarrow> nat \<Rightarrow> 'a list" where
  "pop_heap_pos lt a lst pos =
     (let v = a ! lst;
          a = a[lst := a ! pos];
          hole = pos;
          parent = (hole - 1) div 2 in
      if pos > 0 \<and> lt (a ! parent) v
      then up_heap lt a hole v
      else down_heap lt a lst hole v)"

text \<open>\<open>pop_heap(first, last, pos, compare)\<close>: the test \<open>last - pos > 1\<close> is on the signed
  iterator difference.\<close>

definition pop_heap_at :: "('a \<Rightarrow> 'a \<Rightarrow> bool) \<Rightarrow> 'a list \<Rightarrow> nat \<Rightarrow> 'a list" where
  "pop_heap_at lt a pos =
     (if int (length a) - int pos > 1
      then pop_heap_pos lt a (length a - 1) pos
      else a)"

text \<open>\<open>update_heap(first, last, pos, compare)\<close> reads \<open>*(first + posd)\<close> in both branches.\<close>

definition update_heap :: "('a \<Rightarrow> 'a \<Rightarrow> bool) \<Rightarrow> 'a list \<Rightarrow> nat \<Rightarrow> error + 'a list" where
  "update_heap lt a pos =
     (let posd = pos in
      if posd \<ge> length a then Inl OutOfRange
      else if pos > 0 \<and> lt (a ! ((posd - 1) div 2)) (a ! posd)
      then Inr (up_heap lt a posd (a ! posd))
      else Inr (down_heap lt a (length a) posd (a ! posd)))"

subsection \<open>The heap property and the comparator's contract\<close>

text \<open>The heap invariant H as the specification words it: for all \<open>0 < i < n\<close>,
  \<open>lt (a[(i - 1) / 2]) (a[i])\<close> is false.\<close>

definition heap_property :: "('a \<Rightarrow> 'a \<Rightarrow> bool) \<Rightarrow> 'a list \<Rightarrow> nat \<Rightarrow> bool" where
  "heap_property lt a n = (\<forall>i. 0 < i \<and> i < n \<longrightarrow> \<not> lt (a ! ((i - 1) div 2)) (a ! i))"

text \<open>A comparator induces a strict weak order: irreflexive, transitive, and
  incomparability is transitive.\<close>

definition strict_weak_order :: "('a \<Rightarrow> 'a \<Rightarrow> bool) \<Rightarrow> bool" where
  "strict_weak_order lt =
     ((\<forall>x. \<not> lt x x) \<and> (\<forall>x y z. lt x y \<and> lt y z \<longrightarrow> lt x z)
      \<and> (\<forall>x y z. \<not> lt x y \<and> \<not> lt y z \<longrightarrow> \<not> lt x z))"


subsection \<open>Auxiliary notions for the proofs\<close>

text \<open>\<open>c\<close> is a child slot of \<open>j\<close> in the implicit binary tree.\<close>

definition is_child :: "nat \<Rightarrow> nat \<Rightarrow> bool" where
  "is_child j c = (c = 2 * j + 1 \<or> c = 2 * j + 2)"

text \<open>Every parent at index \<open>k\<close> or above dominates its children within \<open>[0, n)\<close>.\<close>

definition heap_from :: "('a \<Rightarrow> 'a \<Rightarrow> bool) \<Rightarrow> 'a list \<Rightarrow> nat \<Rightarrow> nat \<Rightarrow> bool" where
  "heap_from lt a n k = (\<forall>j c. is_child j c \<and> c < n \<and> k \<le> j \<longrightarrow> \<not> lt (a ! j) (a ! c))"

text \<open>The state of a sift with the slot \<open>h\<close> open and the value \<open>p\<close> in hand: the pairs
  that do not touch \<open>h\<close> are in order, and the parent of \<open>h\<close> dominates both \<open>p\<close> and the
  children of \<open>h\<close>.\<close>

definition sift_pre :: "('a \<Rightarrow> 'a \<Rightarrow> bool) \<Rightarrow> 'a list \<Rightarrow> nat \<Rightarrow> nat \<Rightarrow> nat \<Rightarrow> 'a \<Rightarrow> bool" where
  "sift_pre lt a n k h p =
     ((\<forall>j c. is_child j c \<and> c < n \<and> k \<le> j \<and> j \<noteq> h \<and> c \<noteq> h \<longrightarrow> \<not> lt (a ! j) (a ! c))
      \<and> (\<forall>g. is_child g h \<and> k \<le> g \<longrightarrow>
            \<not> lt (a ! g) p \<and> (\<forall>c. is_child h c \<and> c < n \<longrightarrow> \<not> lt (a ! g) (a ! c))))"

text \<open>The child that one round of \<open>__down_heap\<close> selects when the hole has a child in
  range: the second child only if it exists and the first compares less than it.\<close>

definition larger_child :: "('a \<Rightarrow> 'a \<Rightarrow> bool) \<Rightarrow> 'a list \<Rightarrow> nat \<Rightarrow> nat \<Rightarrow> nat" where
  "larger_child lt a len hole =
     (if 2 * hole + 2 < len \<and> lt (a ! (2 * hole + 1)) (a ! (2 * hole + 2))
      then 2 * hole + 2 else 2 * hole + 1)"

text \<open>The state of an upward sift with the slot \<open>h\<close> open and \<open>p\<close> in hand: the pairs that
  do not touch \<open>h\<close> are in order, \<open>p\<close> dominates the children of \<open>h\<close>, and so does the
  parent of \<open>h\<close>.\<close>

definition up_pre :: "('a \<Rightarrow> 'a \<Rightarrow> bool) \<Rightarrow> 'a list \<Rightarrow> nat \<Rightarrow> nat \<Rightarrow> 'a \<Rightarrow> bool" where
  "up_pre lt a n h p =
     ((\<forall>j c. is_child j c \<and> c < n \<and> j \<noteq> h \<and> c \<noteq> h \<longrightarrow> \<not> lt (a ! j) (a ! c))
      \<and> (\<forall>c. is_child h c \<and> c < n \<longrightarrow> \<not> lt p (a ! c))
      \<and> (\<forall>g c. is_child g h \<and> is_child h c \<and> c < n \<longrightarrow> \<not> lt (a ! g) (a ! c)))"

subsection \<open>Callback versions\<close>

text \<open>
  The observer \<open>moved(val, a, b)\<close> is a caller-supplied functor with a state of its own:
  here a function \<open>moved v from to\<close> on the observer's state \<open>s\<close>, threaded through the
  operation next to the sequence. An operation returns the sequence and the observer's
  final state. The value handed over is read from the slot after the write, as
  \<open>moved(*(first + child), parent, child)\<close> does.
\<close>

function up_heap_cb ::
  "('a \<Rightarrow> 'a \<Rightarrow> bool) \<Rightarrow> ('a \<Rightarrow> nat \<Rightarrow> nat \<Rightarrow> 's \<Rightarrow> 's) \<Rightarrow> 'a list \<Rightarrow> 's \<Rightarrow> nat \<Rightarrow> 'a \<Rightarrow> nat
   \<Rightarrow> 'a list \<times> 's" where
  "up_heap_cb lt moved a s child p ppos =
     (let parent = (child - 1) div 2 in
      if child > 0 \<and> lt (a ! parent) p
      then let a = a[child := a ! parent];
               s = moved (a ! child) parent child s
           in up_heap_cb lt moved a s parent p ppos
      else let a = a[child := p] in (a, moved (a ! child) ppos child s))"
  by pat_completeness auto
termination
  by (relation "measure (\<lambda>(lt, moved, a, s, child, p, ppos). child)") auto

declare up_heap_cb.simps [simp del]

function down_heap_cb ::
  "('a \<Rightarrow> 'a \<Rightarrow> bool) \<Rightarrow> ('a \<Rightarrow> nat \<Rightarrow> nat \<Rightarrow> 's \<Rightarrow> 's) \<Rightarrow> 'a list \<Rightarrow> 's \<Rightarrow> nat \<Rightarrow> nat \<Rightarrow> 'a \<Rightarrow> nat
   \<Rightarrow> 'a list \<times> 's" where
  "down_heap_cb lt moved a s len hole p ppos =
     (let child = 2 * hole + 1 in
      if child < len then
        let child = (if child < len - 1 \<and> lt (a ! child) (a ! (child + 1))
                     then child + 1 else child) in
        if lt (a ! child) p
        then let a = a[hole := p] in (a, moved (a ! hole) ppos hole s)
        else let a = a[hole := a ! child];
                 s = moved (a ! hole) child hole s
             in down_heap_cb lt moved a s len child p ppos
      else let a = a[hole := p] in (a, moved (a ! hole) ppos hole s))"
  by pat_completeness auto
termination
  by (relation "measure (\<lambda>(lt, moved, a, s, len, hole, p, ppos). len - hole)") auto

declare down_heap_cb.simps [simp del]

text \<open>\<open>__pop_heap\<close> with observer: \<open>ppos = last - first\<close> is the slot the displaced tail
  value comes from.\<close>

definition pop_heap_inner_cb ::
  "('a \<Rightarrow> 'a \<Rightarrow> bool) \<Rightarrow> ('a \<Rightarrow> nat \<Rightarrow> nat \<Rightarrow> 's \<Rightarrow> 's) \<Rightarrow> 'a list \<Rightarrow> 's \<Rightarrow> nat \<Rightarrow> 'a list \<times> 's" where
  "pop_heap_inner_cb lt moved a s lst =
     (let v = a ! lst;
          a = a[lst := a ! 0];
          ppos = lst in
      down_heap_cb lt moved a s ppos 0 v ppos)"

definition pop_heap_pos_cb ::
  "('a \<Rightarrow> 'a \<Rightarrow> bool) \<Rightarrow> ('a \<Rightarrow> nat \<Rightarrow> nat \<Rightarrow> 's \<Rightarrow> 's) \<Rightarrow> 'a list \<Rightarrow> 's \<Rightarrow> nat \<Rightarrow> nat
   \<Rightarrow> 'a list \<times> 's" where
  "pop_heap_pos_cb lt moved a s lst pos =
     (let v = a ! lst;
          a = a[lst := a ! pos];
          hole = pos;
          parent = (hole - 1) div 2 in
      if pos > 0 \<and> lt (a ! parent) v
      then up_heap_cb lt moved a s hole v lst
      else let ppos = lst in down_heap_cb lt moved a s ppos hole v ppos)"

fun make_heap_cb_loop ::
  "('a \<Rightarrow> 'a \<Rightarrow> bool) \<Rightarrow> ('a \<Rightarrow> nat \<Rightarrow> nat \<Rightarrow> 's \<Rightarrow> 's) \<Rightarrow> 'a list \<Rightarrow> 's \<Rightarrow> nat \<Rightarrow> nat
   \<Rightarrow> 'a list \<times> 's" where
  "make_heap_cb_loop lt moved a s len 0 = (a, s)"
| "make_heap_cb_loop lt moved a s len (Suc parent) =
     (case down_heap_cb lt moved a s len parent (a ! parent) parent of
        (a, s) \<Rightarrow> make_heap_cb_loop lt moved a s len parent)"

definition make_heap_cb ::
  "('a \<Rightarrow> 'a \<Rightarrow> bool) \<Rightarrow> ('a \<Rightarrow> nat \<Rightarrow> nat \<Rightarrow> 's \<Rightarrow> 's) \<Rightarrow> 'a list \<Rightarrow> 's \<Rightarrow> 'a list \<times> 's" where
  "make_heap_cb lt moved a s = make_heap_cb_loop lt moved a s (length a) (length a div 2)"

text \<open>\<open>push_heap\<close> with observer: when no sift is needed the \<open>else\<close> branch reports
  \<open>moved(*(first + lastPos), lastPos, lastPos)\<close>; on the empty range \<open>lastPos\<close> is \<open>-1\<close>
  and the slot is outside the range.\<close>

definition push_heap_cb ::
  "('a \<Rightarrow> 'a \<Rightarrow> bool) \<Rightarrow> ('a \<Rightarrow> nat \<Rightarrow> nat \<Rightarrow> 's \<Rightarrow> 's) \<Rightarrow> 'a list \<Rightarrow> 's
   \<Rightarrow> error + 'a list \<times> 's" where
  "push_heap_cb lt moved a s =
     (let lastPos = int (length a) - 1;
          parent = (lastPos - 1) sdiv 2 in
      if lastPos > 0 \<and> lt (a ! nat parent) (a ! (length a - 1))
      then Inr (up_heap_cb lt moved a s (nat lastPos) (a ! nat lastPos) (nat lastPos))
      else if lastPos < 0 then Inl OutOfRange
      else Inr (a, moved (a ! nat lastPos) (nat lastPos) (nat lastPos) s))"

text \<open>\<open>pop_heap\<close> with observer: the final \<open>moved(*(last - 1), 0, last - first - 1)\<close> is
  outside the guard \<open>end - first > 1\<close>; on the empty range \<open>last - 1\<close> is before \<open>first\<close>.\<close>

definition pop_heap_cb ::
  "('a \<Rightarrow> 'a \<Rightarrow> bool) \<Rightarrow> ('a \<Rightarrow> nat \<Rightarrow> nat \<Rightarrow> 's \<Rightarrow> 's) \<Rightarrow> 'a list \<Rightarrow> 's
   \<Rightarrow> error + 'a list \<times> 's" where
  "pop_heap_cb lt moved a s =
     (case (if length a > 1 then pop_heap_inner_cb lt moved a s (length a - 1) else (a, s)) of
        (a', s') \<Rightarrow>
          if length a = 0 then Inl OutOfRange
          else Inr (a', moved (a' ! (length a - 1)) 0 (length a - 1) s'))"

definition pop_heap_at_cb ::
  "('a \<Rightarrow> 'a \<Rightarrow> bool) \<Rightarrow> ('a \<Rightarrow> nat \<Rightarrow> nat \<Rightarrow> 's \<Rightarrow> 's) \<Rightarrow> 'a list \<Rightarrow> 's \<Rightarrow> nat
   \<Rightarrow> error + 'a list \<times> 's" where
  "pop_heap_at_cb lt moved a s pos =
     (case (if int (length a) - int pos > 1
            then pop_heap_pos_cb lt moved a s (length a - 1) pos else (a, s)) of
        (a', s') \<Rightarrow>
          if length a = 0 then Inl OutOfRange
          else Inr (a', moved (a' ! (length a - 1)) pos (length a - 1) s'))"

function sort_heap_cb_loop ::
  "('a \<Rightarrow> 'a \<Rightarrow> bool) \<Rightarrow> ('a \<Rightarrow> nat \<Rightarrow> nat \<Rightarrow> 's \<Rightarrow> 's) \<Rightarrow> 'a list \<Rightarrow> 's \<Rightarrow> nat \<Rightarrow> 'a list \<times> 's" where
  "sort_heap_cb_loop lt moved a s lst =
     (if lst > 1 then
        let lst = lst - 1 in
        case pop_heap_inner_cb lt moved a s lst of
          (a, s) \<Rightarrow> sort_heap_cb_loop lt moved a (moved (a ! lst) 0 lst s) lst
      else (a, s))"
  by pat_completeness auto
termination
  by (relation "measure (\<lambda>(lt, moved, a, s, lst). lst)") auto

declare sort_heap_cb_loop.simps [simp del]

definition sort_heap_cb ::
  "('a \<Rightarrow> 'a \<Rightarrow> bool) \<Rightarrow> ('a \<Rightarrow> nat \<Rightarrow> nat \<Rightarrow> 's \<Rightarrow> 's) \<Rightarrow> 'a list \<Rightarrow> 's \<Rightarrow> 'a list \<times> 's" where
  "sort_heap_cb lt moved a s = sort_heap_cb_loop lt moved a s (length a)"

definition update_heap_cb ::
  "('a \<Rightarrow> 'a \<Rightarrow> bool) \<Rightarrow> ('a \<Rightarrow> nat \<Rightarrow> nat \<Rightarrow> 's \<Rightarrow> 's) \<Rightarrow> 'a list \<Rightarrow> 's \<Rightarrow> nat
   \<Rightarrow> error + 'a list \<times> 's" where
  "update_heap_cb lt moved a s pos =
     (let posd = pos in
      if posd \<ge> length a then Inl OutOfRange
      else if pos > 0 \<and> lt (a ! ((posd - 1) div 2)) (a ! posd)
      then Inr (up_heap_cb lt moved a s posd (a ! posd) posd)
      else Inr (down_heap_cb lt moved a s (length a) posd (a ! posd) posd))"

text \<open>Two observers. The first keeps the stream of calls, oldest first, as triples
  \<open>(value, from, to)\<close>. The second is the external index an observer is meant to
  maintain: a map from values to slots, with a flag that stays true as long as every
  call names as \<open>from\<close> the slot the index holds for the value.\<close>

definition record_move :: "'a \<Rightarrow> nat \<Rightarrow> nat \<Rightarrow> ('a \<times> nat \<times> nat) list \<Rightarrow> ('a \<times> nat \<times> nat) list" where
  "record_move v from to log = log @ [(v, from, to)]"

fun track_move :: "'a \<Rightarrow> nat \<Rightarrow> nat \<Rightarrow> ('a \<Rightarrow> nat) \<times> bool \<Rightarrow> ('a \<Rightarrow> nat) \<times> bool" where
  "track_move v from to (m, ok) = (m(v := to), ok \<and> m v = from)"

subsection \<open>Parallel build\<close>

text \<open>
  \<open>__down_block\<close>: \<open>parent\<close> is a signed index that starts at
  \<open>blockFront + blockLength - 1\<close>; the loop runs \<open>blockLength\<close> times (not at all when
  \<open>blockLength \<le> 0\<close>) and reads \<open>*(first + parent)\<close> each time.
\<close>

fun down_block_loop :: "('a \<Rightarrow> 'a \<Rightarrow> bool) \<Rightarrow> 'a list \<Rightarrow> nat \<Rightarrow> int \<Rightarrow> nat \<Rightarrow> error + 'a list" where
  "down_block_loop lt a len parent 0 = Inr a"
| "down_block_loop lt a len parent (Suc i) =
     (if 0 \<le> parent \<and> parent < int (length a)
      then down_block_loop lt (down_heap lt a len (nat parent) (a ! nat parent)) len (parent - 1) i
      else Inl OutOfRange)"

definition down_block :: "('a \<Rightarrow> 'a \<Rightarrow> bool) \<Rightarrow> 'a list \<Rightarrow> nat \<Rightarrow> int \<Rightarrow> int \<Rightarrow> error + 'a list" where
  "down_block lt a len blockFront blockLength =
     down_block_loop lt a len (blockFront + blockLength - 1) (nat blockLength)"

text \<open>
  \<open>__thread_worker\<close>, run on its own: \<open>blocksRemaining\<close> is the \<open>size_t\<close> counter (64 bits),
  \<open>--blocksRemaining\<close> returns the new value, and \<open>nthreads\<close> (an \<open>int\<close>) is converted to
  \<open>size_t\<close> for the test. \<open>blockFront\<close> is the product in \<open>size_t\<close> converted to the signed
  \<open>SizeType\<close>. The barrier calls are left out: they only delay a worker until the blocks
  its sifts reach into are finished, which in a run of one worker at a time always holds.
  The loop need not end, so not returning is \<open>None\<close>.
\<close>

partial_function (option) thread_worker ::
  "('a \<Rightarrow> 'a \<Rightarrow> bool) \<Rightarrow> int \<Rightarrow> int \<Rightarrow> nat \<Rightarrow> 'a list \<Rightarrow> 64 word
   \<Rightarrow> ((error + 'a list) \<times> 64 word) option" where
  "thread_worker lt nthreads blockSize len a blocksRemaining =
     (let processBlock = blocksRemaining - 1 in
      if processBlock + word_of_int nthreads < word_of_int nthreads
      then Some (Inr a, processBlock)
      else
        let blockFront = sint (processBlock * word_of_int blockSize) in
        case down_block lt a len blockFront blockSize of
          Inl e \<Rightarrow> Some (Inl e, processBlock)
        | Inr a' \<Rightarrow> thread_worker lt nthreads blockSize len a' processBlock)"

declare thread_worker.simps [code]

text \<open>The workers one after the other, each until it leaves its loop: the calling thread
  first, then the spawned ones.\<close>

fun run_workers ::
  "('a \<Rightarrow> 'a \<Rightarrow> bool) \<Rightarrow> int \<Rightarrow> int \<Rightarrow> nat \<Rightarrow> nat \<Rightarrow> 'a list \<Rightarrow> 64 word \<Rightarrow> (error + 'a list) option" where
  "run_workers lt nthreads blockSize len 0 a c = Some (Inr a)"
| "run_workers lt nthreads blockSize len (Suc k) a c =
     (case thread_worker lt nthreads blockSize len a c of
        None \<Rightarrow> None
      | Some (Inl e, c') \<Rightarrow> Some (Inl e)
      | Some (Inr a', c') \<Rightarrow> run_workers lt nthreads blockSize len k a' c')"

text \<open>
  \<open>parallel_make_heap(first, last, compare, blockSize, maxThreads)\<close> in the schedule where
  the calling thread claims every block (in decreasing index order) before a spawned
  worker makes its first claim. \<open>hw\<close> is what \<open>std::thread::hardware_concurrency()\<close>
  returns. Division by a zero \<open>blockSize\<close> is undefined in the source.
\<close>

definition parallel_make_heap ::
  "('a \<Rightarrow> 'a \<Rightarrow> bool) \<Rightarrow> 'a list \<Rightarrow> int \<Rightarrow> int \<Rightarrow> nat \<Rightarrow> (error + 'a list) option" where
  "parallel_make_heap lt a blockSize maxThreads hw =
     (let len = int (length a);
          processEnd = len sdiv 2 in
      if blockSize = 0 then Some (Inl DivisionByZero)
      else
        let nblocks = (word_of_int (processEnd sdiv blockSize) :: 64 word);
            nblocks = (if processEnd smod blockSize \<noteq> 0 then nblocks + 1 else nblocks);
            maxThreads = (if maxThreads \<le> 0 then int (max hw 2) else maxThreads);
            nthreads = sint (ucast (min nblocks (word_of_int maxThreads)) :: 32 word);
            nthreads = (if nthreads < 1 then 1 else nthreads);
            blocksRemaining = nblocks;
            processBlock = blocksRemaining - 1;
            blockFront = sint (processBlock * word_of_int blockSize);
            blockLength = processEnd - blockFront
        in case down_block lt a (length a) blockFront blockLength of
             Inl e \<Rightarrow> Some (Inl e)
           | Inr a' \<Rightarrow> run_workers lt nthreads blockSize (length a) (nat nthreads) a' processBlock)"

subsection \<open>The block-claim counter under any interleaving\<close>

text \<open>
  The claims of all workers on the shared atomic \<open>size_t\<close> counter (64 bits), abstracted
  from the sifting:
  \<open>running\<close> are the workers still in the loop of \<open>__thread_worker\<close>, \<open>taken\<close> the values
  used as block indices (newest first), and \<open>drained\<close> records that a decrement has
  brought the counter to zero. One \<open>claim\<close> is one round of the loop by worker \<open>w\<close>:
  the atomic decrement and the test \<open>processBlock + nthreads < nthreads\<close>. A schedule is
  the list of workers in the order of their claims.
\<close>

record claim_state =
  blocksRemaining :: "64 word"
  running :: "nat set"
  taken :: "64 word list"
  drained :: bool

definition claim :: "64 word \<Rightarrow> nat \<Rightarrow> claim_state \<Rightarrow> claim_state" where
  "claim nthreads w s =
     (if w \<in> running s then
        let processBlock = blocksRemaining s - 1;
            s = s\<lparr>blocksRemaining := processBlock, drained := drained s \<or> processBlock = 0\<rparr> in
        if processBlock + nthreads < nthreads
        then s\<lparr>running := running s - {w}\<rparr>
        else s\<lparr>taken := processBlock # taken s\<rparr>
      else s)"

text \<open>The state when the workers start: \<open>parallel_make_heap\<close> has stored \<open>nblocks\<close> and
  the calling thread has claimed the last block without a test.\<close>

definition claim_init :: "64 word \<Rightarrow> 64 word \<Rightarrow> claim_state" where
  "claim_init nthreads nblocks =
     \<lparr>blocksRemaining = nblocks - 1, running = {0 ..< unat nthreads},
      taken = [nblocks - 1], drained = (nblocks - 1 = 0)\<rparr>"

definition run_claims :: "64 word \<Rightarrow> nat list \<Rightarrow> claim_state \<Rightarrow> claim_state" where
  "run_claims nthreads ws s = fold (claim nthreads) ws s"

subsection \<open>A comparator for concrete inputs\<close>

text \<open>Pairs of a key and a payload, compared by key only: elements with the same key
  are equivalent under the comparator and still distinguishable.\<close>

definition less_key :: "nat \<times> nat \<Rightarrow> nat \<times> nat \<Rightarrow> bool" where
  "less_key x y = (fst x < fst y)"

text \<open>What holds of the counter after any number of claims: before it has reached zero it
  is a block index in range; afterwards it is zero or has wrapped by no more than the number of
  workers that have left.\<close>

definition claim_inv :: "64 word \<Rightarrow> 64 word \<Rightarrow> claim_state \<Rightarrow> bool" where
  "claim_inv nthreads nblocks s =
     (running s \<subseteq> {0 ..< unat nthreads}
      \<and> (\<forall>b \<in> set (taken s). b < nblocks)
      \<and> (if drained s
         then blocksRemaining s = 0
              \<or> 2 ^ 64 \<le> unat (blocksRemaining s) + (unat nthreads - card (running s))
         else 0 < blocksRemaining s \<and> blocksRemaining s < nblocks))"

subsection \<open>What it means for the observer's index to be right\<close>

text \<open>The index \<open>m\<close> holds, for the value in each slot of \<open>a\<close>, that slot.\<close>

definition tracks :: "('a \<Rightarrow> nat) \<Rightarrow> 'a list \<Rightarrow> bool" where
  "tracks m a = (\<forall>i<length a. m (a ! i) = i)"

subsection \<open>What it means for the stream of calls to be exact\<close>

text \<open>
  Elements are told apart by the slot they start in: \<open>tagged a\<close> pairs each element with
  its initial index, and \<open>on_value lt\<close> is the comparator \<open>lt\<close> seeing the element only, so
  a run on \<open>tagged a\<close> is the run on \<open>a\<close> with every object labelled. \<open>untag\<close> removes the
  labels from a stream of calls, \<open>untag_run\<close> from a sequence with its stream.
\<close>

definition tagged :: "'a list \<Rightarrow> ('a \<times> nat) list" where
  "tagged a = zip a [0..<length a]"

definition on_value :: "('a \<Rightarrow> 'a \<Rightarrow> bool) \<Rightarrow> 'a \<times> nat \<Rightarrow> 'a \<times> nat \<Rightarrow> bool" where
  "on_value lt x y = lt (fst x) (fst y)"

definition untag :: "(('a \<times> nat) \<times> nat \<times> nat) list \<Rightarrow> ('a \<times> nat \<times> nat) list" where
  "untag calls = map (\<lambda>(v, src, dst). (fst v, src, dst)) calls"

definition untag_run ::
  "('a \<times> nat) list \<times> (('a \<times> nat) \<times> nat \<times> nat) list \<Rightarrow> 'a list \<times> ('a \<times> nat \<times> nat) list" where
  "untag_run run = (map fst (fst run), untag (snd run))"

text \<open>
  The calls of one step are exact between the sequence \<open>b\<close> before it and the sequence
  \<open>r\<close> after it (a rearrangement of \<open>b\<close>, whose elements are pairwise different): no call
  is made twice, and the calls are the triples \<open>(v, i, j)\<close> where \<open>v\<close> is the element that
  was in slot \<open>i\<close> of \<open>b\<close> and is in slot \<open>j\<close> of \<open>r\<close>, for every element that changed
  its slot and for the element that was in slot \<open>h\<close>, the one the step has in hand,
  whether it changed its slot or not. So every relocation is reported once, with the
  slot left and the slot reached, the element in hand is reported with \<open>from = to\<close>
  when it stays, and nothing else is reported.
\<close>

definition exact_stream :: "'a list \<Rightarrow> 'a list \<Rightarrow> nat \<Rightarrow> ('a \<times> nat \<times> nat) list \<Rightarrow> bool" where
  "exact_stream b r h calls \<longleftrightarrow>
     mset r = mset b \<and> distinct calls
     \<and> set calls = set [(b ! i, i, j). i \<leftarrow> [0..<length b], j \<leftarrow> [0..<length b],
                                      r ! j = b ! i \<and> (i \<noteq> j \<or> i = h)]"

text \<open>
  An operation made of several steps (one sift per internal node in \<open>make_heap\<close>, one
  pop per element in \<open>sort_heap\<close>): each step is given by the slot in hand, its calls and
  the sequence it leaves, and the calls of each step are exact between the sequence
  the step finds and the one it leaves.
\<close>

fun exact_steps :: "'a list \<Rightarrow> (nat \<times> ('a \<times> nat \<times> nat) list \<times> 'a list) list \<Rightarrow> bool" where
  "exact_steps b [] = True"
| "exact_steps b ((h, calls, r) # steps) = (exact_stream b r h calls \<and> exact_steps r steps)"

text \<open>
  The state in the middle of a step, for the proofs: \<open>x\<close> is the sequence with the value
  in hand written into the open slot, \<open>S\<close> holds the initial slots of the elements whose
  call is still to come, and the calls made so far are those of every other element
  that is not in its initial slot.
\<close>

definition pending_stream :: "'a list \<Rightarrow> nat set \<Rightarrow> 'a list \<Rightarrow> ('a \<times> nat \<times> nat) list \<Rightarrow> bool" where
  "pending_stream b S x calls \<longleftrightarrow>
     mset x = mset b \<and> distinct calls
     \<and> (\<forall>v f t. (v, f, t) \<in> set calls \<longleftrightarrow>
           f < length b \<and> t < length b \<and> v = b ! f \<and> x ! t = b ! f \<and> f \<noteq> t \<and> f \<notin> S)"

section \<open>Sift-down restores the heap property\<close>

lemma swo_asym: "strict_weak_order lt \<Longrightarrow> lt x y \<Longrightarrow> \<not> lt y x"
  unfolding strict_weak_order_def by blast

lemma swo_ge_trans: "strict_weak_order lt \<Longrightarrow> \<not> lt x y \<Longrightarrow> \<not> lt y z \<Longrightarrow> \<not> lt x z"
  unfolding strict_weak_order_def by blast

lemma is_child_gt: "is_child j c \<Longrightarrow> j < c"
  by (auto simp: is_child_def)

lemma is_child_parent_unique: "is_child j c \<Longrightarrow> is_child j' c \<Longrightarrow> j = j'"
  by (auto simp: is_child_def)

lemma is_child_parent: "is_child j c \<longleftrightarrow> (0 < c \<and> j = (c - 1) div 2)"
  by (auto simp: is_child_def)

lemma heap_property_iff: "heap_property lt a n \<longleftrightarrow> heap_from lt a n 0"
  unfolding heap_property_def heap_from_def is_child_parent by auto

lemma down_heap_stop:
  assumes swo: "strict_weak_order lt" and pre: "sift_pre lt a n k h p"
    and h: "h < n" "n \<le> length a"
    and kids: "\<forall>c. is_child h c \<and> c < n \<longrightarrow> \<not> lt p (a ! c)"
  shows "heap_from lt (a[h := p]) n k"
  unfolding heap_from_def
proof (intro allI impI)
  fix j c assume jc: "is_child j c \<and> c < n \<and> k \<le> j"
  then have "j < c" by (simp add: is_child_gt)
  show "\<not> lt (a[h := p] ! j) (a[h := p] ! c)"
  proof (cases "j = h")
    case True
    with jc h \<open>j < c\<close> kids show ?thesis by simp
  next
    case False
    show ?thesis
    proof (cases "c = h")
      case True
      with jc h pre False show ?thesis by (auto simp: sift_pre_def)
    next
      case c: False
      with jc h pre False show ?thesis by (auto simp: sift_pre_def)
    qed
  qed
qed

lemma down_heap_step_pre:
  assumes swo: "strict_weak_order lt" and pre: "sift_pre lt a n k h p"
    and h: "h < n" "n \<le> length a" "k \<le> h"
    and c: "is_child h c" "c < n" "\<not> lt (a ! c) p"
    and sib: "\<forall>d. is_child h d \<and> d < n \<longrightarrow> \<not> lt (a ! c) (a ! d)"
  shows "sift_pre lt (a[h := a ! c]) n k c p"
  unfolding sift_pre_def
proof (intro conjI allI impI)
  fix j d assume jd: "is_child j d \<and> d < n \<and> k \<le> j \<and> j \<noteq> c \<and> d \<noteq> c"
  have hc: "h < c" using c by (simp add: is_child_gt)
  show "\<not> lt (a[h := a ! c] ! j) (a[h := a ! c] ! d)"
  proof (cases "j = h")
    case True
    with jd h hc sib is_child_gt[of j d] show ?thesis by simp
  next
    case False
    show ?thesis
    proof (cases "d = h")
      case True
      with jd h pre False c show ?thesis by (auto simp: sift_pre_def)
    next
      case d: False
      with jd h pre False show ?thesis by (auto simp: sift_pre_def)
    qed
  qed
next
  fix g assume g: "is_child g c \<and> k \<le> g"
  then have gh: "g = h" using c is_child_parent_unique by blast
  with h c show "\<not> lt (a[h := a ! c] ! g) p" by simp
next
  fix g d assume g: "is_child g c \<and> k \<le> g" and d: "is_child c d \<and> d < n"
  then have gh: "g = h" using c is_child_parent_unique by blast
  have hc: "h < c" using c by (simp add: is_child_gt)
  have cd: "c < d" using d by (simp add: is_child_gt)
  have "\<not> lt (a ! c) (a ! d)" using pre d hc cd h unfolding sift_pre_def by auto
  with gh h hc cd show "\<not> lt (a[h := a ! c] ! g) (a[h := a ! c] ! d)" by simp
qed

lemma larger_child_eq:
  "2 * hole + 1 < len \<Longrightarrow>
   (if 2 * hole + 1 < len - 1 \<and> lt (a ! (2 * hole + 1)) (a ! (2 * hole + 1 + 1))
    then 2 * hole + 1 + 1 else 2 * hole + 1) = larger_child lt a len hole"
  by (auto simp: larger_child_def)

lemma down_heap_leaf: "\<not> 2 * hole + 1 < len \<Longrightarrow> down_heap lt a len hole p = a[hole := p]"
  by (subst down_heap.simps) simp

lemma down_heap_stop_eq:
  "2 * hole + 1 < len \<Longrightarrow> lt (a ! larger_child lt a len hole) p
   \<Longrightarrow> down_heap lt a len hole p = a[hole := p]"
  by (subst down_heap.simps) (simp only: Let_def larger_child_eq if_True)

lemma down_heap_descend_eq:
  "2 * hole + 1 < len \<Longrightarrow> \<not> lt (a ! larger_child lt a len hole) p
   \<Longrightarrow> down_heap lt a len hole p
       = down_heap lt (a[hole := a ! larger_child lt a len hole]) len (larger_child lt a len hole) p"
  by (subst down_heap.simps) (simp only: Let_def larger_child_eq if_True if_False)

lemma larger_child_is_child: "is_child hole (larger_child lt a len hole)"
  by (simp add: larger_child_def is_child_def)

lemma larger_child_less: "2 * hole + 1 < len \<Longrightarrow> larger_child lt a len hole < len"
  by (simp add: larger_child_def)

lemma larger_child_ge_sibling:
  assumes swo: "strict_weak_order lt" and d: "is_child hole d" "d < len"
  shows "\<not> lt (a ! larger_child lt a len hole) (a ! d)"
proof (cases "d = larger_child lt a len hole")
  case True
  then show ?thesis using swo by (simp add: strict_weak_order_def)
next
  case False
  then show ?thesis using d swo_asym [OF swo]
    by (auto simp: larger_child_def is_child_def split: if_splits)
qed

lemma down_heap_heap_from:
  "strict_weak_order lt \<Longrightarrow> sift_pre lt a n k h p \<Longrightarrow> h < n \<Longrightarrow> n \<le> length a \<Longrightarrow> k \<le> h
   \<Longrightarrow> heap_from lt (down_heap lt a n h p) n k"
proof (induction "n - h" arbitrary: a h rule: less_induct)
  case less
  note swo = \<open>strict_weak_order lt\<close>
  note pre = \<open>sift_pre lt a n k h p\<close>
  show ?case
  proof (cases "2 * h + 1 < n")
    case False
    have "\<forall>c. is_child h c \<and> c < n \<longrightarrow> \<not> lt p (a ! c)"
      using False by (auto simp: is_child_def)
    then show ?thesis using down_heap_stop [OF swo pre] less.prems
      by (simp add: down_heap_leaf [OF False])
  next
    case True
    define c where "c = larger_child lt a n h"
    have cc: "is_child h c" "c < n"
      using True by (simp_all add: c_def larger_child_is_child larger_child_less)
    have sib: "\<forall>d. is_child h d \<and> d < n \<longrightarrow> \<not> lt (a ! c) (a ! d)"
      using larger_child_ge_sibling [OF swo] by (simp add: c_def)
    show ?thesis
    proof (cases "lt (a ! c) p")
      case lt: True
      have "\<forall>d. is_child h d \<and> d < n \<longrightarrow> \<not> lt p (a ! d)"
        using sib swo_asym [OF swo lt] swo_ge_trans [OF swo] by blast
      then show ?thesis using down_heap_stop [OF swo pre] less.prems lt
        by (simp add: down_heap_stop_eq [OF True] c_def)
    next
      case nlt: False
      have pre': "sift_pre lt (a[h := a ! c]) n k c p"
        using down_heap_step_pre [OF swo pre _ _ _ cc nlt sib] less.prems by simp
      have hc: "h < c" using cc by (simp add: is_child_gt)
      have "heap_from lt (down_heap lt (a[h := a ! c]) n c p) n k"
        using less.hyps [OF _ swo pre'] cc hc less.prems by simp
      then show ?thesis using nlt by (simp add: down_heap_descend_eq [OF True] c_def)
    qed
  qed
qed


lemma length_down_heap [simp]: "length (down_heap lt a n h p) = length a"
proof (induction "n - h" arbitrary: a h rule: less_induct)
  case less
  show ?case
  proof (cases "2 * h + 1 < n")
    case False
    then show ?thesis by (simp add: down_heap_leaf)
  next
    case True
    show ?thesis
    proof (cases "lt (a ! larger_child lt a n h) p")
      case True
      with \<open>2 * h + 1 < n\<close> show ?thesis by (simp add: down_heap_stop_eq)
    next
      case False
      have "h < larger_child lt a n h" "larger_child lt a n h < n"
        using True by (simp_all add: larger_child_def)
      then show ?thesis using less.hyps [of "larger_child lt a n h"] False True
        by (simp add: down_heap_descend_eq)
    qed
  qed
qed

lemma mset_update_move:
  assumes "h < length a" "c < length a" "h \<noteq> c"
  shows "mset (a[h := a ! c, c := p]) = mset (a[h := p])"
proof -
  have "mset ((a[h := p])[c := (a[h := p]) ! h, h := (a[h := p]) ! c]) = mset (a[h := p])"
    by (rule mset_swap) (use assms in simp_all)
  moreover have "(a[h := p])[c := (a[h := p]) ! h, h := (a[h := p]) ! c] = a[h := a ! c, c := p]"
    using assms by (simp add: list_update_swap)
  ultimately show ?thesis by simp
qed

lemma mset_down_heap:
  "h < n \<Longrightarrow> n \<le> length a \<Longrightarrow> mset (down_heap lt a n h p) = mset (a[h := p])"
proof (induction "n - h" arbitrary: a h rule: less_induct)
  case less
  show ?case
  proof (cases "2 * h + 1 < n")
    case False
    then show ?thesis by (simp add: down_heap_leaf)
  next
    case True
    define c where "c = larger_child lt a n h"
    have c: "h < c" "c < n" using True by (simp_all add: c_def larger_child_def)
    show ?thesis
    proof (cases "lt (a ! c) p")
      case True
      with \<open>2 * h + 1 < n\<close> show ?thesis by (simp add: down_heap_stop_eq c_def)
    next
      case False
      have "mset (down_heap lt (a[h := a ! c]) n c p) = mset (a[h := a ! c, c := p])"
        using less.hyps [of c "a[h := a ! c]"] c less.prems by simp
      also have "\<dots> = mset (a[h := p])"
        using c less.prems by (intro mset_update_move) simp_all
      finally show ?thesis using False True by (simp add: down_heap_descend_eq c_def)
    qed
  qed
qed

lemma down_heap_frame:
  "i < h \<or> n \<le> i \<Longrightarrow> h < n \<Longrightarrow> down_heap lt a n h p ! i = a ! i"
proof (induction "n - h" arbitrary: a h rule: less_induct)
  case less
  have ih: "i \<noteq> h" using less.prems by auto
  show ?case
  proof (cases "2 * h + 1 < n")
    case False
    then show ?thesis using ih by (simp add: down_heap_leaf)
  next
    case True
    define c where "c = larger_child lt a n h"
    have c: "h < c" "c < n" using True by (simp_all add: c_def larger_child_def)
    show ?thesis
    proof (cases "lt (a ! c) p")
      case True
      with \<open>2 * h + 1 < n\<close> show ?thesis using ih by (simp add: down_heap_stop_eq c_def)
    next
      case False
      have "down_heap lt (a[h := a ! c]) n c p ! i = (a[h := a ! c]) ! i"
        using less.hyps [of c "a[h := a ! c]"] c less.prems by auto
      then show ?thesis using False True ih by (simp add: down_heap_descend_eq c_def)
    qed
  qed
qed

lemma heap_from_leaves: "n div 2 \<le> k \<Longrightarrow> heap_from lt a n k"
  by (auto simp: heap_from_def is_child_def)

lemma sift_pre_heap_from: "heap_from lt a n (Suc k) \<Longrightarrow> sift_pre lt a n k k p"
  unfolding sift_pre_def heap_from_def
  using is_child_gt by (metis Suc_leI le_neq_implies_less not_le)

lemma make_heap_loop_heap:
  "strict_weak_order lt \<Longrightarrow> heap_from lt a (length a) k \<Longrightarrow> k \<le> length a div 2
   \<Longrightarrow> heap_from lt (make_heap_loop lt a (length a) k) (length a) 0
       \<and> mset (make_heap_loop lt a (length a) k) = mset a"
proof (induction k arbitrary: a)
  case 0
  then show ?case by simp
next
  case (Suc k)
  let ?b = "down_heap lt a (length a) k (a ! k)"
  have k: "k < length a" using Suc.prems by auto
  have "heap_from lt ?b (length a) k"
    using down_heap_heap_from [OF Suc.prems(1) sift_pre_heap_from [OF Suc.prems(2)]] k by simp
  moreover have "mset ?b = mset a" using k by (simp add: mset_down_heap)
  ultimately show ?case using Suc.IH [of ?b] Suc.prems by simp
qed

lemma is_heap_until_loop_full:
  "child = 2 * parent + 1 \<Longrightarrow>
   (is_heap_until_loop lt a parent child = length a)
     = (\<forall>i. child \<le> i \<and> i < length a \<longrightarrow> \<not> lt (a ! ((i - 1) div 2)) (a ! i))"
proof (induction lt a parent child rule: is_heap_until_loop.induct)
  case (1 lt a parent child)
  show ?case
  proof (cases "child < length a")
    case False
    then have "is_heap_until_loop lt a parent child = length a"
      by (subst is_heap_until_loop.simps) simp
    with False show ?thesis by auto
  next
    case True
    have p0: "(child - 1) div 2 = parent" "(child + 1 - 1) div 2 = parent"
      using "1.prems" by simp_all
    show ?thesis
    proof (cases "lt (a ! parent) (a ! child)")
      case lt: True
      have "is_heap_until_loop lt a parent child = child"
        using True lt by (subst is_heap_until_loop.simps) simp
      moreover have "\<not> (\<forall>i. child \<le> i \<and> i < length a \<longrightarrow> \<not> lt (a ! ((i - 1) div 2)) (a ! i))"
        using True lt p0 by (metis le_refl)
      ultimately show ?thesis using True by simp
    next
      case nlt: False
      show ?thesis
      proof (cases "child + 1 < length a \<and> lt (a ! parent) (a ! (child + 1))")
        case c2: True
        have "is_heap_until_loop lt a parent child = child + 1"
          using True nlt c2 by (subst is_heap_until_loop.simps) (simp add: Let_def)
        moreover have "\<not> (\<forall>i. child \<le> i \<and> i < length a \<longrightarrow> \<not> lt (a ! ((i - 1) div 2)) (a ! i))"
          using c2 p0 by (metis le_add1)
        ultimately show ?thesis using c2 by simp
      next
        case c2: False
        have eq: "is_heap_until_loop lt a parent child = is_heap_until_loop lt a (parent + 1) (child + 1 + 1)"
          using True nlt c2 by (subst is_heap_until_loop.simps) (auto simp: Let_def)
        have ih: "(is_heap_until_loop lt a (parent + 1) (child + 1 + 1) = length a)
           = (\<forall>i. child + 1 + 1 \<le> i \<and> i < length a \<longrightarrow> \<not> lt (a ! ((i - 1) div 2)) (a ! i))"
          using "1.IH" [OF True nlt refl c2] "1.prems" by simp
        have "(\<forall>i. child \<le> i \<and> i < length a \<longrightarrow> \<not> lt (a ! ((i - 1) div 2)) (a ! i))
            = (\<forall>i. child + 1 + 1 \<le> i \<and> i < length a \<longrightarrow> \<not> lt (a ! ((i - 1) div 2)) (a ! i))"
        proof
          assume r: "\<forall>i. child + 1 + 1 \<le> i \<and> i < length a \<longrightarrow> \<not> lt (a ! ((i - 1) div 2)) (a ! i)"
          show "\<forall>i. child \<le> i \<and> i < length a \<longrightarrow> \<not> lt (a ! ((i - 1) div 2)) (a ! i)"
          proof (intro allI impI)
            fix i assume i: "child \<le> i \<and> i < length a"
            consider "i = child" | "i = child + 1" | "child + 1 + 1 \<le> i" using i by linarith
            then show "\<not> lt (a ! ((i - 1) div 2)) (a ! i)"
            proof cases
              case 1 then show ?thesis using nlt p0 by simp
            next
              case 2 then show ?thesis using c2 i p0 by auto
            next
              case 3 then show ?thesis using r i by blast
            qed
          qed
        qed auto
        with eq ih show ?thesis by simp
      qed
    qed
  qed
qed

lemma is_heap_iff: "is_heap lt a = heap_property lt a (length a)"
proof -
  have "is_heap lt a = (\<forall>i. 1 \<le> i \<and> i < length a \<longrightarrow> \<not> lt (a ! ((i - 1) div 2)) (a ! i))"
    unfolding is_heap_def is_heap_until_def by (rule is_heap_until_loop_full) simp
  then show ?thesis by (auto simp: heap_property_def Suc_le_eq)
qed

section \<open>Building a heap\<close>

lemma swo_less_nat: "strict_weak_order ((<) :: nat \<Rightarrow> nat \<Rightarrow> bool)"
  by (auto simp: strict_weak_order_def)

text \<open>
  C5. For every input sequence and every comparator that induces a strict weak order,
  after \<open>make_heap\<close> the scan \<open>is_heap\<close> returns true, that is for all \<open>0 < i < n\<close>
  the parent \<open>a[(i - 1) / 2]\<close> does not compare less than \<open>a[i]\<close>, and the result is a
  permutation of the input (same multiset of elements).
\<close>

theorem make_heap_is_heap:
  assumes "strict_weak_order lt"
  shows "is_heap lt (make_heap lt a)
         \<and> heap_property lt (make_heap lt a) (length (make_heap lt a))
         \<and> mset (make_heap lt a) = mset a"
proof -
  have *: "heap_from lt (make_heap lt a) (length a) 0 \<and> mset (make_heap lt a) = mset a"
    unfolding make_heap_def
    by (rule make_heap_loop_heap [OF assms heap_from_leaves]) simp_all
  then have "length (make_heap lt a) = length a" by (metis size_mset)
  with * show ?thesis by (simp add: is_heap_iff heap_property_iff)
qed

theorem make_heap_is_heap_witness:
  "strict_weak_order ((<) :: nat \<Rightarrow> nat \<Rightarrow> bool)
   \<and> is_heap (<) (make_heap (<) [4, 1, 3, 2, 16, 9, 10, 14, 8, 7 :: nat])
   \<and> mset (make_heap (<) [4, 1, 3, 2, 16, 9, 10, 14, 8, 7 :: nat])
       = mset [4, 1, 3, 2, 16, 9, 10, 14, 8, 7]"
  using make_heap_is_heap [OF swo_less_nat, of "[4, 1, 3, 2, 16, 9, 10, 14, 8, 7]"] swo_less_nat
  by simp

section \<open>Positional pop at the final element\<close>

text \<open>
  C10. For the positional \<open>pop_heap(first, last, pos)\<close> without observer, whenever
  \<open>last - pos \<le> 1\<close> (in particular \<open>pos = last - 1\<close>) the call returns the sequence
  with every slot unchanged, whatever the comparison functor is: the guarded body,
  the only place that moves or compares elements, is not entered.
\<close>

theorem pop_heap_at_final_unchanged:
  "int (length a) - int pos \<le> 1 \<Longrightarrow> pop_heap_at lt a pos = a"
  by (simp add: pop_heap_at_def)

theorem pop_heap_at_final_unchanged_witness:
  "int (length [16, 14, 10 :: nat]) - int 2 \<le> 1
   \<and> pop_heap_at (<) [16, 14, 10 :: nat] 2 = [16, 14, 10]"
  using pop_heap_at_final_unchanged [of "[16, 14, 10 :: nat]" 2 "(<)"] by simp


section \<open>Sift-up, and the two-way decision of the positional operations\<close>

lemma up_heap_stop_eq:
  "\<not> (0 < child \<and> lt (a ! ((child - 1) div 2)) p) \<Longrightarrow> up_heap lt a child p = a[child := p]"
  by (subst up_heap.simps) (auto simp: Let_def)

lemma parent_less: "0 < h \<Longrightarrow> (h - 1) div 2 < (h :: nat)"
  by arith

lemma up_heap_ascend_eq:
  "0 < child \<Longrightarrow> lt (a ! ((child - 1) div 2)) p
   \<Longrightarrow> up_heap lt a child p = up_heap lt (a[child := a ! ((child - 1) div 2)]) ((child - 1) div 2) p"
  by (subst up_heap.simps) (simp add: Let_def)

lemma length_up_heap [simp]: "length (up_heap lt a h p) = length a"
proof (induction h arbitrary: a rule: less_induct)
  case (less h)
  show ?case
  proof (cases "0 < h \<and> lt (a ! ((h - 1) div 2)) p")
    case False
    then show ?thesis by (simp add: up_heap_stop_eq)
  next
    case True
    then have "(h - 1) div 2 < h" using parent_less [of h] by simp
    then show ?thesis using less.IH True by (simp add: up_heap_ascend_eq)
  qed
qed

lemma mset_up_heap: "h < length a \<Longrightarrow> mset (up_heap lt a h p) = mset (a[h := p])"
proof (induction h arbitrary: a rule: less_induct)
  case (less h)
  show ?case
  proof (cases "0 < h \<and> lt (a ! ((h - 1) div 2)) p")
    case False
    then show ?thesis by (simp add: up_heap_stop_eq)
  next
    case True
    define g where "g = (h - 1) div 2"
    have g: "g < h" using True parent_less [of h] by (simp add: g_def)
    have "mset (up_heap lt (a[h := a ! g]) g p) = mset (a[h := a ! g, g := p])"
      using less.IH [OF g, of "a[h := a ! g]"] g less.prems by simp
    also have "\<dots> = mset (a[h := p])"
      using g less.prems by (intro mset_update_move) simp_all
    finally show ?thesis using True by (simp add: up_heap_ascend_eq g_def)
  qed
qed

lemma up_heap_frame: "h < i \<Longrightarrow> up_heap lt a h p ! i = a ! i"
proof (induction h arbitrary: a rule: less_induct)
  case (less h)
  show ?case
  proof (cases "0 < h \<and> lt (a ! ((h - 1) div 2)) p")
    case False
    then show ?thesis using less.prems by (simp add: up_heap_stop_eq)
  next
    case True
    define g where "g = (h - 1) div 2"
    have g: "g < h" using True parent_less [of h] by (simp add: g_def)
    have "up_heap lt (a[h := a ! g]) g p ! i = (a[h := a ! g]) ! i"
      using less.IH [OF g, of "a[h := a ! g]"] g less.prems by simp
    then show ?thesis using True less.prems by (simp add: up_heap_ascend_eq g_def)
  qed
qed

lemma up_heap_stop:
  assumes pre: "up_pre lt a n h p" and h: "h < n" "n \<le> length a"
    and par: "\<forall>g. is_child g h \<longrightarrow> \<not> lt (a ! g) p"
  shows "heap_from lt (a[h := p]) n 0"
  unfolding heap_from_def
proof (intro allI impI)
  fix j c assume jc: "is_child j c \<and> c < n \<and> 0 \<le> j"
  then have "j < c" by (simp add: is_child_gt)
  show "\<not> lt (a[h := p] ! j) (a[h := p] ! c)"
  proof (cases "j = h")
    case True
    with jc h \<open>j < c\<close> pre show ?thesis by (simp add: up_pre_def)
  next
    case False
    show ?thesis
    proof (cases "c = h")
      case True
      with jc h par False show ?thesis by auto
    next
      case c: False
      with jc h pre False show ?thesis by (auto simp: up_pre_def)
    qed
  qed
qed

lemma up_heap_step_pre:
  assumes swo: "strict_weak_order lt" and pre: "up_pre lt a n h p"
    and h: "h < n" "n \<le> length a"
    and g: "is_child g h" "lt (a ! g) p"
  shows "up_pre lt (a[h := a ! g]) n g p"
proof -
  have gh: "g < h" using g by (simp add: is_child_gt)
  have pg: "\<not> lt p (a ! g)" using swo_asym [OF swo g(2)] .
  have i: "\<And>j c. is_child j c \<Longrightarrow> c < n \<Longrightarrow> j \<noteq> h \<Longrightarrow> c \<noteq> h \<Longrightarrow> \<not> lt (a ! j) (a ! c)"
    using pre by (auto simp: up_pre_def)
  have iii: "\<And>c. is_child h c \<Longrightarrow> c < n \<Longrightarrow> \<not> lt (a ! g) (a ! c)"
    using pre g by (auto simp: up_pre_def)
  show ?thesis
    unfolding up_pre_def
  proof (intro conjI allI impI)
    fix j c assume jc: "is_child j c \<and> c < n \<and> j \<noteq> g \<and> c \<noteq> g"
    then have "j < c" by (simp add: is_child_gt)
    show "\<not> lt (a[h := a ! g] ! j) (a[h := a ! g] ! c)"
    proof (cases "j = h")
      case True
      with jc h \<open>j < c\<close> iii show ?thesis by simp
    next
      case False
      have "c \<noteq> h" using jc g is_child_parent_unique by blast
      with False jc i show ?thesis by simp
    qed
  next
    fix c assume c: "is_child g c \<and> c < n"
    show "\<not> lt p (a[h := a ! g] ! c)"
    proof (cases "c = h")
      case True
      with h pg show ?thesis by simp
    next
      case False
      then have "\<not> lt (a ! g) (a ! c)" using i c gh by auto
      with pg False show ?thesis using swo_ge_trans [OF swo] by auto
    qed
  next
    fix gg c assume c: "is_child gg g \<and> is_child g c \<and> c < n"
    then have gg: "gg < g" by (simp add: is_child_gt)
    have 1: "\<not> lt (a ! gg) (a ! g)" using i [of gg g] c gg gh h by auto
    show "\<not> lt (a[h := a ! g] ! gg) (a[h := a ! g] ! c)"
    proof (cases "c = h")
      case True
      with h gg gh 1 show ?thesis by simp
    next
      case False
      then have "\<not> lt (a ! g) (a ! c)" using i c gh by auto
      with 1 False gg gh show ?thesis using swo_ge_trans [OF swo] by auto
    qed
  qed
qed

lemma up_heap_heap_from:
  "strict_weak_order lt \<Longrightarrow> up_pre lt a n h p \<Longrightarrow> h < n \<Longrightarrow> n \<le> length a
   \<Longrightarrow> heap_from lt (up_heap lt a h p) n 0"
proof (induction h arbitrary: a rule: less_induct)
  case (less h)
  note swo = \<open>strict_weak_order lt\<close>
  note pre = \<open>up_pre lt a n h p\<close>
  show ?case
  proof (cases "0 < h \<and> lt (a ! ((h - 1) div 2)) p")
    case False
    then have "\<forall>g. is_child g h \<longrightarrow> \<not> lt (a ! g) p" by (auto simp: is_child_parent)
    then show ?thesis using up_heap_stop [OF pre] less.prems False by (simp add: up_heap_stop_eq)
  next
    case True
    define g where "g = (h - 1) div 2"
    have g: "is_child g h" "lt (a ! g) p" using True by (simp_all add: g_def is_child_parent)
    have gh: "g < h" using g by (simp add: is_child_gt)
    have "up_pre lt (a[h := a ! g]) n g p"
      using up_heap_step_pre [OF swo pre _ _ g] less.prems by simp
    then have "heap_from lt (up_heap lt (a[h := a ! g]) g p) n 0"
      using less.IH [OF gh swo] gh less.prems by simp
    then show ?thesis using True by (simp add: up_heap_ascend_eq g_def)
  qed
qed

lemma heap_from_mono: "heap_from lt a n k \<Longrightarrow> n' \<le> n \<Longrightarrow> k \<le> k' \<Longrightarrow> heap_from lt a n' k'"
  by (auto simp: heap_from_def)

lemma resift_pre:
  assumes swo: "strict_weak_order lt" and heap: "heap_from lt a n 0"
    and k: "k < n" and agree: "\<forall>i<n. i \<noteq> k \<longrightarrow> b ! i = a ! i"
  shows "0 < k \<and> lt (b ! ((k - 1) div 2)) v \<Longrightarrow> up_pre lt b n k v"
    and "\<not> (0 < k \<and> lt (b ! ((k - 1) div 2)) v) \<Longrightarrow> sift_pre lt b n 0 k v"
proof -
  have pair: "\<And>j c. is_child j c \<Longrightarrow> c < n \<Longrightarrow> \<not> lt (a ! j) (a ! c)"
    using heap by (auto simp: heap_from_def)
  have i: "\<And>j c. is_child j c \<Longrightarrow> c < n \<Longrightarrow> j \<noteq> k \<Longrightarrow> c \<noteq> k \<Longrightarrow> \<not> lt (b ! j) (b ! c)"
  proof -
    fix j c assume jc: "is_child j c" "c < n" "j \<noteq> k" "c \<noteq> k"
    then have "j < n" using is_child_gt [of j c] by simp
    with jc agree pair [of j c] show "\<not> lt (b ! j) (b ! c)" by simp
  qed
  have iii: "\<And>g c. is_child g k \<Longrightarrow> is_child k c \<Longrightarrow> c < n \<Longrightarrow> \<not> lt (b ! g) (b ! c)"
  proof -
    fix g c assume gc: "is_child g k" "is_child k c" "c < n"
    then have lt: "g < k" "k < c" by (simp_all add: is_child_gt)
    have "\<not> lt (a ! g) (a ! c)"
      using swo_ge_trans [OF swo pair [OF gc(1) k] pair [OF gc(2,3)]] .
    with lt gc k agree show "\<not> lt (b ! g) (b ! c)" by simp
  qed
  {
    assume up: "0 < k \<and> lt (b ! ((k - 1) div 2)) v"
    define g where "g = (k - 1) div 2"
    have g: "is_child g k" using up by (simp add: g_def is_child_parent)
    have vg: "\<not> lt v (b ! g)" using swo_asym [OF swo] up by (simp add: g_def)
    have "\<And>c. is_child k c \<Longrightarrow> c < n \<Longrightarrow> \<not> lt v (b ! c)"
      using swo_ge_trans [OF swo vg iii [OF g]] .
    with i iii show "up_pre lt b n k v" unfolding up_pre_def by blast
  }
  {
    assume down: "\<not> (0 < k \<and> lt (b ! ((k - 1) div 2)) v)"
    then have "\<And>g. is_child g k \<Longrightarrow> \<not> lt (b ! g) v" by (auto simp: is_child_parent)
    with i iii show "sift_pre lt b n 0 k v" unfolding sift_pre_def by blast
  }
qed


lemma mset_take_last: "length xs = Suc m \<Longrightarrow> mset (take m xs) = mset xs - {# xs ! m #}"
proof -
  assume l: "length xs = Suc m"
  have "xs = take (Suc m) xs" using l by simp
  also have "\<dots> = take m xs @ [xs ! m]" by (rule take_Suc_conv_app_nth) (simp add: l)
  finally have e: "xs = take m xs @ [xs ! m]" .
  have "mset xs = mset (take m xs @ [xs ! m])" by (rule arg_cong [OF e])
  then show ?thesis by simp
qed

lemma pop_heap_pos_correct:
  assumes swo: "strict_weak_order lt" and heap: "heap_from lt a (length a) 0"
    and k: "k < length a - 1"
  shows "pop_heap_pos lt a (length a - 1) k ! (length a - 1) = a ! k
         \<and> heap_from lt (pop_heap_pos lt a (length a - 1) k) (length a - 1) 0
         \<and> mset (pop_heap_pos lt a (length a - 1) k) = mset a"
proof -
  define lst where "lst = length a - 1"
  define v where "v = a ! lst"
  define b where "b = a[lst := a ! k]"
  have kl: "k < lst" "lst < length a" using k by (simp_all add: lst_def)
  have lb: "length b = length a" by (simp add: b_def)
  have heap': "heap_from lt a lst 0" using heap_from_mono [OF heap] kl by simp
  have agree: "\<forall>i<lst. i \<noteq> k \<longrightarrow> b ! i = a ! i" by (simp add: b_def)
  have ms: "mset (b[k := v]) = mset a"
  proof -
    have "b[k := v] = a[lst := a ! k, k := a ! lst]" by (simp add: b_def v_def)
    then show ?thesis using mset_swap [of k a lst] kl by simp
  qed
  have blst: "b ! lst = a ! k" using kl by (simp add: b_def)
  show ?thesis
  proof (cases "0 < k \<and> lt (b ! ((k - 1) div 2)) v")
    case True
    then have eq: "pop_heap_pos lt a (length a - 1) k = up_heap lt b k v"
      by (simp add: pop_heap_pos_def Let_def b_def v_def lst_def)
    have "heap_from lt (up_heap lt b k v) lst 0"
      using up_heap_heap_from [OF swo resift_pre(1) [OF swo heap' kl(1) agree True]] kl lb by simp
    moreover have "up_heap lt b k v ! lst = a ! k" using kl blst by (simp add: up_heap_frame)
    moreover have "mset (up_heap lt b k v) = mset a" using kl lb ms by (simp add: mset_up_heap)
    ultimately show ?thesis using eq by (simp add: lst_def)
  next
    case False
    then have eq: "pop_heap_pos lt a (length a - 1) k = down_heap lt b lst k v"
      by (auto simp add: pop_heap_pos_def Let_def b_def v_def lst_def)
    have "heap_from lt (down_heap lt b lst k v) lst 0"
      using down_heap_heap_from [OF swo resift_pre(2) [OF swo heap' kl(1) agree False]] kl lb by simp
    moreover have "down_heap lt b lst k v ! lst = a ! k" using kl blst by (simp add: down_heap_frame)
    moreover have "mset (down_heap lt b lst k v) = mset a" using kl lb ms by (simp add: mset_down_heap)
    ultimately show ?thesis using eq by (simp add: lst_def)
  qed
qed

text \<open>
  C1. For every valid heap \<open>a\<close> of length \<open>n\<close> (under a strict weak order) and every
  index \<open>k < n\<close>, the positional \<open>pop_heap\<close> leaves \<open>a[n - 1]\<close> equal to the original
  \<open>a[k]\<close>, leaves \<open>[0, n - 1)\<close> a valid heap, and the multiset of the prefix
  \<open>[0, n - 1)\<close> is the original multiset minus \<open>{a[k]}\<close>.
\<close>

theorem pop_heap_at_correct:
  assumes swo: "strict_weak_order lt" and heap: "is_heap lt a" and k: "k < length a"
  shows "length (pop_heap_at lt a k) = length a
         \<and> pop_heap_at lt a k ! (length a - 1) = a ! k
         \<and> heap_property lt (pop_heap_at lt a k) (length a - 1)
         \<and> mset (take (length a - 1) (pop_heap_at lt a k)) = mset a - {# a ! k #}"
proof -
  have hf: "heap_from lt a (length a) 0" using heap by (simp add: is_heap_iff heap_property_iff)
  obtain m where m: "length a = Suc m" using k by (cases a) auto
  show ?thesis
  proof (cases "k < length a - 1")
    case False
    then have km: "k = m" using k m by simp
    then have eq: "pop_heap_at lt a k = a" using m by (simp add: pop_heap_at_def)
    have "heap_from lt a m 0" using heap_from_mono [OF hf] m by simp
    then show ?thesis using eq m km mset_take_last [OF m] by (simp add: heap_property_iff)
  next
    case True
    then have eq: "pop_heap_at lt a k = pop_heap_pos lt a (length a - 1) k"
      by (auto simp: pop_heap_at_def)
    note r = pop_heap_pos_correct [OF swo hf True]
    have len: "length (pop_heap_at lt a k) = Suc m" using r eq m by (metis size_mset)
    show ?thesis using r eq m len mset_take_last [OF len] by (simp add: heap_property_iff)
  qed
qed

theorem pop_heap_at_correct_witness:
  "strict_weak_order ((<) :: nat \<Rightarrow> nat \<Rightarrow> bool)
   \<and> is_heap (<) [16, 14, 10, 8, 7, 9, 3, 2, 4, 1 :: nat]
   \<and> 4 < length [16, 14, 10, 8, 7, 9, 3, 2, 4, 1 :: nat]
   \<and> pop_heap_at (<) [16, 14, 10, 8, 7, 9, 3, 2, 4, 1 :: nat] 4 = [16, 14, 10, 8, 1, 9, 3, 2, 4, 7]
   \<and> heap_property (<) (pop_heap_at (<) [16, 14, 10, 8, 7, 9, 3, 2, 4, 1 :: nat] 4)
        (length [16, 14, 10, 8, 7, 9, 3, 2, 4, 1 :: nat] - 1)"
proof -
  have 1: "is_heap (<) [16, 14, 10, 8, 7, 9, 3, 2, 4, 1 :: nat]" by code_simp
  have 2: "4 < length [16, 14, 10, 8, 7, 9, 3, 2, 4, 1 :: nat]" by simp
  have 3: "pop_heap_at (<) [16, 14, 10, 8, 7, 9, 3, 2, 4, 1 :: nat] 4
           = [16, 14, 10, 8, 1, 9, 3, 2, 4, 7]" by code_simp
  from pop_heap_at_correct [OF swo_less_nat 1 2] swo_less_nat 1 2 3 show ?thesis by blast
qed

text \<open>
  C2. For every sequence that was a valid heap before the slot \<open>k\<close> was edited from
  outside (to an arbitrary value \<open>v\<close>), \<open>update_heap\<close> at \<open>k\<close> returns normally, restores
  the heap property on the whole range, and the result has the multiset of the
  edited sequence.
\<close>

theorem update_heap_restores:
  assumes swo: "strict_weak_order lt" and heap: "is_heap lt a" and k: "k < length a"
  shows "\<exists>r. update_heap lt (a[k := v]) k = Inr r
             \<and> is_heap lt r \<and> heap_property lt r (length r) \<and> mset r = mset (a[k := v])"
proof -
  define b where "b = a[k := v]"
  have hf: "heap_from lt a (length a) 0" using heap by (simp add: is_heap_iff heap_property_iff)
  have lb: "length b = length a" and bk: "b ! k = v" using k by (simp_all add: b_def)
  have agree: "\<forall>i<length a. i \<noteq> k \<longrightarrow> b ! i = a ! i" by (simp add: b_def)
  have bb: "b[k := v] = b" by (simp add: b_def)
  show ?thesis
  proof (cases "0 < k \<and> lt (b ! ((k - 1) div 2)) v")
    case True
    then have eq: "update_heap lt b k = Inr (up_heap lt b k v)"
      using k lb bk by (simp add: update_heap_def Let_def)
    have "heap_from lt (up_heap lt b k v) (length a) 0"
      using up_heap_heap_from [OF swo resift_pre(1) [OF swo hf k agree True]] k lb by simp
    moreover have "mset (up_heap lt b k v) = mset b" using k lb bb by (simp add: mset_up_heap)
    ultimately show ?thesis using eq lb
      by (simp add: is_heap_iff heap_property_iff b_def [symmetric])
  next
    case False
    then have eq: "update_heap lt b k = Inr (down_heap lt b (length a) k v)"
      using k lb bk by (auto simp add: update_heap_def Let_def)
    have "heap_from lt (down_heap lt b (length a) k v) (length a) 0"
      using down_heap_heap_from [OF swo resift_pre(2) [OF swo hf k agree False]] k lb by simp
    moreover have "mset (down_heap lt b (length a) k v) = mset b"
      using k lb bb by (simp add: mset_down_heap)
    ultimately show ?thesis using eq lb
      by (simp add: is_heap_iff heap_property_iff b_def [symmetric])
  qed
qed

theorem update_heap_restores_witness:
  "strict_weak_order ((<) :: nat \<Rightarrow> nat \<Rightarrow> bool)
   \<and> is_heap (<) [16, 14, 10, 8, 7, 9, 3, 2, 4, 1 :: nat]
   \<and> 7 < length [16, 14, 10, 8, 7, 9, 3, 2, 4, 1 :: nat]
   \<and> update_heap (<) ([16, 14, 10, 8, 7, 9, 3, 2, 4, 1 :: nat][7 := 20]) 7
       = Inr [20, 16, 10, 14, 7, 9, 3, 8, 4, 1]
   \<and> (\<exists>r. update_heap (<) ([16, 14, 10, 8, 7, 9, 3, 2, 4, 1 :: nat][7 := 20]) 7 = Inr r
            \<and> is_heap (<) r \<and> heap_property (<) r (length r)
            \<and> mset r = mset ([16, 14, 10, 8, 7, 9, 3, 2, 4, 1 :: nat][7 := 20]))"
proof -
  have 1: "is_heap (<) [16, 14, 10, 8, 7, 9, 3, 2, 4, 1 :: nat]" by code_simp
  have 2: "7 < length [16, 14, 10, 8, 7, 9, 3, 2, 4, 1 :: nat]" by simp
  have 3: "update_heap (<) ([16, 14, 10, 8, 7, 9, 3, 2, 4, 1 :: nat][7 := 20]) 7
           = Inr [20, 16, 10, 14, 7, 9, 3, 8, 4, 1]" by code_simp
  from update_heap_restores [OF swo_less_nat 1 2, of 20] swo_less_nat 1 2 3 show ?thesis by blast
qed



section \<open>What a sift-down moves, and what it reports\<close>

lemma down_heap_cb_leaf:
  "\<not> 2 * hole + 1 < len \<Longrightarrow>
   down_heap_cb lt moved a s len hole p ppos = (a[hole := p], moved (a[hole := p] ! hole) ppos hole s)"
  by (subst down_heap_cb.simps) (simp add: Let_def)

lemma down_heap_cb_stop_eq:
  "2 * hole + 1 < len \<Longrightarrow> lt (a ! larger_child lt a len hole) p \<Longrightarrow>
   down_heap_cb lt moved a s len hole p ppos = (a[hole := p], moved (a[hole := p] ! hole) ppos hole s)"
  by (subst down_heap_cb.simps) (simp only: Let_def larger_child_eq if_True)

lemma down_heap_cb_descend_eq:
  "2 * hole + 1 < len \<Longrightarrow> \<not> lt (a ! larger_child lt a len hole) p \<Longrightarrow>
   down_heap_cb lt moved a s len hole p ppos
     = down_heap_cb lt moved (a[hole := a ! larger_child lt a len hole])
         (moved (a[hole := a ! larger_child lt a len hole] ! hole) (larger_child lt a len hole) hole s)
         len (larger_child lt a len hole) p ppos"
  by (subst down_heap_cb.simps) (simp only: Let_def larger_child_eq if_True if_False)

lemma fst_down_heap_cb: "fst (down_heap_cb lt moved a s len hole p ppos) = down_heap lt a len hole p"
proof (induction "len - hole" arbitrary: a s hole rule: less_induct)
  case less
  show ?case
  proof (cases "2 * hole + 1 < len")
    case False
    then show ?thesis by (simp add: down_heap_cb_leaf down_heap_leaf)
  next
    case True
    define c where "c = larger_child lt a len hole"
    have c: "hole < c" "c < len" using True by (simp_all add: c_def larger_child_def)
    show ?thesis
    proof (cases "lt (a ! c) p")
      case lt: True
      then show ?thesis using True by (simp add: down_heap_cb_stop_eq down_heap_stop_eq c_def)
    next
      case False
      then show ?thesis using True less.hyps [of c] c
        by (simp add: down_heap_cb_descend_eq down_heap_descend_eq c_def)
    qed
  qed
qed

lemma larger_child_update:
  "h \<le> f \<Longrightarrow> larger_child lt (a[h := x]) len f = larger_child lt a len f"
  by (simp add: larger_child_def)

lemma down_heap_cb_stream:
  "hole < len \<Longrightarrow> len \<le> length a \<Longrightarrow>
   \<exists>moves f. down_heap_cb lt record_move a log len hole p ppos
                 = (down_heap lt a len hole p, log @ moves @ [(p, ppos, f)])
     \<and> hole \<le> f \<and> f < len
     \<and> (\<forall>(v, src, dst) \<in> set moves. \<not> lt v p \<and> is_child dst src \<and> hole \<le> dst \<and> v = a ! src)
     \<and> (2 * f + 1 < len \<longrightarrow> lt (a ! larger_child lt a len f) p)"
proof (induction "len - hole" arbitrary: a log hole rule: less_induct)
  case less
  have hl: "hole < length a" using less.prems by simp
  show ?case
  proof (cases "2 * hole + 1 < len")
    case False
    have "down_heap_cb lt record_move a log len hole p ppos
            = (down_heap lt a len hole p, log @ [] @ [(p, ppos, hole)])"
      using False hl by (simp add: down_heap_cb_leaf down_heap_leaf record_move_def)
    then show ?thesis using False less.prems by (intro exI [of _ "[]"] exI [of _ hole]) simp
  next
    case True
    define c where "c = larger_child lt a len hole"
    have c: "hole < c" "c < len" "is_child hole c"
      using True by (simp_all add: c_def larger_child_def is_child_def)
    show ?thesis
    proof (cases "lt (a ! c) p")
      case lt: True
      have "down_heap_cb lt record_move a log len hole p ppos
              = (down_heap lt a len hole p, log @ [] @ [(p, ppos, hole)])"
        using True lt hl
        by (simp add: down_heap_cb_stop_eq down_heap_stop_eq record_move_def c_def)
      then show ?thesis using lt less.prems
        by (intro exI [of _ "[]"] exI [of _ hole]) (simp add: c_def)
    next
      case nlt: False
      define a1 where "a1 = a[hole := a ! c]"
      have eq: "down_heap_cb lt record_move a log len hole p ppos
              = down_heap_cb lt record_move a1 (log @ [(a ! c, c, hole)]) len c p ppos"
        using True nlt hl by (simp add: down_heap_cb_descend_eq record_move_def c_def a1_def)
      have eq': "down_heap lt a len hole p = down_heap lt a1 len c p"
        using True nlt by (simp add: down_heap_descend_eq c_def a1_def)
      have "len - c < len - hole" using c by simp
      moreover have "c < len" "len \<le> length a1" using c less.prems by (simp_all add: a1_def)
      ultimately have "\<exists>moves f. down_heap_cb lt record_move a1 (log @ [(a ! c, c, hole)]) len c p ppos
                 = (down_heap lt a1 len c p, (log @ [(a ! c, c, hole)]) @ moves @ [(p, ppos, f)])
           \<and> c \<le> f \<and> f < len
           \<and> (\<forall>(v, src, dst) \<in> set moves. \<not> lt v p \<and> is_child dst src \<and> c \<le> dst \<and> v = a1 ! src)
           \<and> (2 * f + 1 < len \<longrightarrow> lt (a1 ! larger_child lt a1 len f) p)"
        by (rule less.hyps)
      then obtain moves f where
        r: "down_heap_cb lt record_move a1 (log @ [(a ! c, c, hole)]) len c p ppos
              = (down_heap lt a1 len c p, (log @ [(a ! c, c, hole)]) @ moves @ [(p, ppos, f)])"
        and f: "c \<le> f" "f < len"
        and mv: "\<forall>(v, src, dst) \<in> set moves. \<not> lt v p \<and> is_child dst src \<and> c \<le> dst \<and> v = a1 ! src"
        and st: "2 * f + 1 < len \<longrightarrow> lt (a1 ! larger_child lt a1 len f) p"
        by blast
      have mv': "\<forall>(v, src, dst) \<in> set ((a ! c, c, hole) # moves).
                   \<not> lt v p \<and> is_child dst src \<and> hole \<le> dst \<and> v = a ! src"
      proof -
        have "\<forall>(v, src, dst) \<in> set moves. \<not> lt v p \<and> is_child dst src \<and> hole \<le> dst \<and> v = a ! src"
        proof (clarify)
          fix v src dst assume m: "(v, src, dst) \<in> set moves"
          with mv have x: "\<not> lt v p" "is_child dst src" "c \<le> dst" "v = a1 ! src" by auto
          then have "hole < src" using c is_child_gt [of dst src] by simp
          with x c show "\<not> lt v p \<and> is_child dst src \<and> hole \<le> dst \<and> v = a ! src"
            by (simp add: a1_def)
        qed
        with nlt c show ?thesis by simp
      qed
      have st': "2 * f + 1 < len \<longrightarrow> lt (a ! larger_child lt a len f) p"
      proof
        assume "2 * f + 1 < len"
        with st have "lt (a1 ! larger_child lt a1 len f) p" by simp
        moreover have "larger_child lt a1 len f = larger_child lt a len f"
          using f c unfolding a1_def by (intro larger_child_update) simp
        moreover have "hole < larger_child lt a len f"
          using f c by (simp add: larger_child_def)
        ultimately show "lt (a ! larger_child lt a len f) p" by (simp add: a1_def)
      qed
      have "down_heap_cb lt record_move a log len hole p ppos
              = (down_heap lt a len hole p, log @ ((a ! c, c, hole) # moves) @ [(p, ppos, f)])"
        using eq eq' r by simp
      with mv' st' f c show ?thesis
        by (intro exI [of _ "(a ! c, c, hole) # moves"] exI [of _ f]) simp
    qed
  qed
qed


text \<open>
  C6, as the code has it. In \<open>__down_heap\<close> a child is moved up into the hole exactly
  when it does not compare less than the displaced value \<open>p\<close> (it is greater than or
  equivalent to \<open>p\<close>), and the descent stops as soon as the larger child compares less
  than \<open>p\<close> or there are no children. In the recorded stream of the observer variant:
  every move before the final placement of \<open>p\<close> brings a child \<open>a[src]\<close> that is not
  less than \<open>p\<close> into its parent slot; at the final slot \<open>f\<close> either no child is in range
  or the larger child is less than \<open>p\<close>. In particular, where the larger child is
  equivalent to \<open>p\<close> the child is moved into the hole and the descent goes on from
  its slot. The claim as written (a move only for a strictly greater child, a stop at
  an equivalent child) fails at the two-element sequence of the counterexample.
\<close>

theorem down_heap_moves_unless_less:
  assumes "hole < len" and "len \<le> length a"
  shows "(\<exists>moves f. down_heap_cb lt record_move a [] len hole p ppos
                       = (down_heap lt a len hole p, moves @ [(p, ppos, f)])
            \<and> (\<forall>(v, src, dst) \<in> set moves. \<not> lt v p \<and> is_child dst src \<and> v = a ! src)
            \<and> (2 * f + 1 < len \<longrightarrow> lt (a ! larger_child lt a len f) p))
         \<and> (2 * hole + 1 < len \<and> \<not> lt (a ! larger_child lt a len hole) p
              \<longrightarrow> down_heap lt a len hole p ! hole = a ! larger_child lt a len hole)"
proof
  obtain moves f where
    r: "down_heap_cb lt record_move a [] len hole p ppos
          = (down_heap lt a len hole p, [] @ moves @ [(p, ppos, f)])"
    and mv: "\<forall>(v, src, dst) \<in> set moves. \<not> lt v p \<and> is_child dst src \<and> hole \<le> dst \<and> v = a ! src"
    and st: "2 * f + 1 < len \<longrightarrow> lt (a ! larger_child lt a len f) p"
    using down_heap_cb_stream [OF assms, of lt "[]" p ppos] by blast
  have "\<forall>(v, src, dst) \<in> set moves. \<not> lt v p \<and> is_child dst src \<and> v = a ! src"
    using mv by fastforce
  with r st show "\<exists>moves f. down_heap_cb lt record_move a [] len hole p ppos
                       = (down_heap lt a len hole p, moves @ [(p, ppos, f)])
            \<and> (\<forall>(v, src, dst) \<in> set moves. \<not> lt v p \<and> is_child dst src \<and> v = a ! src)
            \<and> (2 * f + 1 < len \<longrightarrow> lt (a ! larger_child lt a len f) p)"
    by (intro exI [of _ moves] exI [of _ f]) simp
next
  show "2 * hole + 1 < len \<and> \<not> lt (a ! larger_child lt a len hole) p
          \<longrightarrow> down_heap lt a len hole p ! hole = a ! larger_child lt a len hole"
  proof
    assume c: "2 * hole + 1 < len \<and> \<not> lt (a ! larger_child lt a len hole) p"
    define c' where "c' = larger_child lt a len hole"
    have lt: "hole < c'" "c' < len" using c by (simp_all add: c'_def larger_child_def)
    have "down_heap lt a len hole p ! hole = (a[hole := a ! c']) ! hole"
      using c lt by (simp add: down_heap_descend_eq down_heap_frame c'_def)
    then show "down_heap lt a len hole p ! hole = a ! larger_child lt a len hole"
      using assms by (simp add: c'_def)
  qed
qed

theorem down_heap_moves_unless_less_witness:
  "(0 :: nat) < 2 \<and> (2 :: nat) \<le> length [(0, 0), (1, 1 :: nat) :: nat \<times> nat]
   \<and> (\<exists>moves f. down_heap_cb less_key record_move [(0, 0), (1, 1)] [] 2 0 (1, 9) 0
                       = (down_heap less_key [(0, 0), (1, 1)] 2 0 (1, 9), moves @ [((1, 9), 0, f)])
            \<and> (\<forall>(v, src, dst) \<in> set moves.
                  \<not> less_key v (1, 9) \<and> is_child dst src \<and> v = [(0, 0), (1, 1)] ! src)
            \<and> (2 * f + 1 < 2 \<longrightarrow> less_key ([(0, 0), (1, 1)] ! larger_child less_key [(0, 0), (1, 1)] 2 f) (1, 9)))"
proof -
  have 1: "(0 :: nat) < 2" by simp
  have 2: "(2 :: nat) \<le> length [(0, 0), (1, 1 :: nat) :: nat \<times> nat]" by simp
  from down_heap_moves_unless_less [OF 1 2, of less_key "(1, 9)" 0] 1 2 show ?thesis by blast
qed

theorem down_heap_equivalent_child_counterexample:
  "\<not> less_key (1, 1) (1, 9) \<and> \<not> less_key (1, 9) (1, 1)
   \<and> down_heap_cb less_key record_move [(0, 0), (1, 1)] [] 2 0 (1, 9) 0
       = ([(1, 1), (1, 9)], [((1, 1), 1, 0), ((1, 9), 0, 1)])
   \<and> down_heap less_key [(0, 0), (1, 1)] 2 0 (1, 9) = [(1, 1), (1, 9)]"
  by code_simp

text \<open>
  C7, as the code has it. When the hole has two children in range and the first does not
  compare less than the second (in particular when the two compare equal), the
  \<^emph>\<open>left\<close> child \<open>2 * hole + 1\<close> is the candidate: slot \<open>hole\<close> ends up holding the left
  child unless that child is less than \<open>p\<close>, and the first call the observer sees is the
  move of the left child (or the placement of \<open>p\<close>). The right child is chosen only
  when the left compares less than it. The claim as written (the right child on a tie)
  fails at the three-element sequence of the counterexample.
\<close>

theorem down_heap_tie_selects_left:
  assumes "2 * hole + 2 < len" and "len \<le> length a"
    and "\<not> lt (a ! (2 * hole + 1)) (a ! (2 * hole + 2))"
  shows "down_heap lt a len hole p ! hole
           = (if lt (a ! (2 * hole + 1)) p then p else a ! (2 * hole + 1))
         \<and> (\<exists>rest. snd (down_heap_cb lt record_move a [] len hole p ppos)
               = (if lt (a ! (2 * hole + 1)) p then (p, ppos, hole)
                  else (a ! (2 * hole + 1), 2 * hole + 1, hole)) # rest)"
proof -
  have c: "larger_child lt a len hole = 2 * hole + 1" using assms by (simp add: larger_child_def)
  have k: "2 * hole + 1 < len" "hole < length a" using assms by simp_all
  show ?thesis
  proof (cases "lt (a ! (2 * hole + 1)) p")
    case True
    then show ?thesis using k c
      by (simp add: down_heap_stop_eq down_heap_cb_stop_eq record_move_def)
  next
    case False
    define a1 where "a1 = a[hole := a ! (2 * hole + 1)]"
    have 1: "down_heap lt a len hole p ! hole = a ! (2 * hole + 1)"
      using False k c by (simp add: down_heap_descend_eq down_heap_frame)
    have "down_heap_cb lt record_move a [] len hole p ppos
            = down_heap_cb lt record_move a1 [(a ! (2 * hole + 1), 2 * hole + 1, hole)] len (2 * hole + 1) p ppos"
      using False k c by (simp add: down_heap_cb_descend_eq record_move_def a1_def)
    moreover have "\<exists>moves f. down_heap_cb lt record_move a1 [(a ! (2 * hole + 1), 2 * hole + 1, hole)] len (2 * hole + 1) p ppos
            = (down_heap lt a1 len (2 * hole + 1) p, [(a ! (2 * hole + 1), 2 * hole + 1, hole)] @ moves @ [(p, ppos, f)])"
      using down_heap_cb_stream [of "2 * hole + 1" len a1 lt "[(a ! (2 * hole + 1), 2 * hole + 1, hole)]" p ppos] k assms
      by (auto simp: a1_def)
    ultimately have "\<exists>rest. snd (down_heap_cb lt record_move a [] len hole p ppos)
                       = (a ! (2 * hole + 1), 2 * hole + 1, hole) # rest"
      by auto
    with 1 False show ?thesis by simp
  qed
qed

theorem down_heap_tie_selects_left_witness:
  "(2 :: nat) * 0 + 2 < 3 \<and> (3 :: nat) \<le> length [(0, 0), (1, 1), (1, 2 :: nat) :: nat \<times> nat]
   \<and> less_key (1, 1) (1, 2) = False
   \<and> down_heap less_key [(0, 0), (1, 1), (1, 2)] 3 0 (0, 9) ! 0 = (1, 1)"
  using down_heap_tie_selects_left [of 0 3 "[(0, 0), (1, 1), (1, 2)]" less_key "(0, 9)" 0]
  by (simp add: less_key_def)

theorem down_heap_tie_right_counterexample:
  "\<not> less_key (1, 1) (1, 2) \<and> \<not> less_key (1, 2) (1, 1)
   \<and> down_heap_cb less_key record_move [(0, 0), (1, 1), (1, 2)] [] 3 0 (0, 9) 0
       = ([(1, 1), (0, 9), (1, 2)], [((1, 1), 1, 0), ((0, 9), 0, 1)])
   \<and> down_heap less_key [(0, 0), (1, 1), (1, 2)] 3 0 (0, 9) = [(1, 1), (0, 9), (1, 2)]"
  by code_simp


section \<open>The block-claim counter\<close>

lemma unat_less_2p64: "unat v < 2 ^ 64" for v :: "64 word"
  using unsigned_less [of v, where 'a = nat] by simp

lemma claim_test_iff: "(v + n < n) = (2 ^ 64 \<le> unat v + unat n)" for v n :: "64 word"
proof -
  have "unat (v + n) = (if unat v + unat n < 2 ^ 64 then unat v + unat n
                        else unat v + unat n - 2 ^ 64)"
    using unat_plus_if_size [of v n] by (simp add: word_size)
  then show ?thesis
    using unat_less_2p64 [of v] unat_less_2p64 [of n] by (auto simp: word_less_nat_alt)
qed

lemma unat_pred0: "unat ((0 :: 64 word) - 1) = 2 ^ 64 - 1"
  by (simp add: unsigned_minus_1_eq_mask mask_eq_exp_minus_1)

lemma word_pred_less: "c \<noteq> 0 \<Longrightarrow> c - 1 < c" for c :: "64 word"
  by (simp add: word_less_nat_alt unat_minus_one unat_gt_0)

lemma claim_init_inv:
  "nblocks \<noteq> 0 \<Longrightarrow> claim_inv nthreads nblocks (claim_init nthreads nblocks)"
  unfolding claim_inv_def claim_init_def
  by (auto simp: word_neq_0_conv [symmetric] word_pred_less)

lemma claim_drained_exit:
  assumes inv: "claim_inv nthreads nblocks s" and d: "drained s" and w: "w \<in> running s"
    and n: "nthreads \<noteq> 0"
  shows "2 ^ 64 \<le> unat (blocksRemaining s - 1) + unat nthreads"
proof -
  have fin: "finite (running s)" using inv by (auto simp: claim_inv_def intro: finite_subset)
  have "card (running s) \<le> card {0 ..< unat nthreads}"
    using inv by (intro card_mono) (auto simp: claim_inv_def)
  moreover have "0 < card (running s)" using w fin by (auto simp: card_gt_0_iff)
  ultimately have e: "unat nthreads - card (running s) < unat nthreads" by simp
  show ?thesis
  proof (cases "blocksRemaining s = 0")
    case True
    have "0 < unat nthreads" using n by (simp add: unat_gt_0)
    then show ?thesis using True unat_pred0 by simp
  next
    case False
    then have "2 ^ 64 \<le> unat (blocksRemaining s) + (unat nthreads - card (running s))"
      using inv d by (simp add: claim_inv_def)
    moreover have "unat (blocksRemaining s - 1) = unat (blocksRemaining s) - 1"
      using False by (rule unat_minus_one)
    ultimately show ?thesis using e by simp
  qed
qed

lemma claim_step_inv:
  assumes inv: "claim_inv nthreads nblocks s" and n: "nthreads \<noteq> 0"
  shows "claim_inv nthreads nblocks (claim nthreads w s)"
proof (cases "w \<in> running s")
  case False
  then show ?thesis using inv by (simp add: claim_def)
next
  case w: True
  have fin: "finite (running s)" using inv by (auto simp: claim_inv_def intro: finite_subset)
  have sub: "running s \<subseteq> {0 ..< unat nthreads}" using inv by (simp add: claim_inv_def)
  have tk: "\<forall>b \<in> set (taken s). b < nblocks" using inv by (simp add: claim_inv_def)
  have cardw: "card (running s - {w}) = card (running s) - 1" using w fin by simp
  have cpos: "0 < card (running s)" using w fin by (auto simp: card_gt_0_iff)
  have cle: "card (running s) \<le> unat nthreads"
    using card_mono [OF _ sub] by simp
  define pb where "pb = blocksRemaining s - 1"
  show ?thesis
  proof (cases "drained s")
    case d: True
    have t: "pb + nthreads < nthreads"
      using claim_drained_exit [OF inv d w n] by (simp add: claim_test_iff pb_def)
    have eq: "claim nthreads w s
             = s\<lparr>blocksRemaining := pb, drained := True, running := running s - {w}\<rparr>"
      using w d t by (simp add: claim_def Let_def pb_def)
    have "2 ^ 64 \<le> unat pb + (unat nthreads - card (running s - {w}))"
    proof (cases "blocksRemaining s = 0")
      case True
      then have "unat pb = 2 ^ 64 - 1" using unat_pred0 by (simp add: pb_def)
      then show ?thesis using cardw cpos cle by simp
    next
      case False
      then have "2 ^ 64 \<le> unat (blocksRemaining s) + (unat nthreads - card (running s))"
        using inv d by (simp add: claim_inv_def)
      moreover have "unat pb = unat (blocksRemaining s) - 1"
        unfolding pb_def using False by (rule unat_minus_one)
      moreover have "0 < unat (blocksRemaining s)" using False by (simp add: unat_gt_0)
      ultimately show ?thesis using cardw cpos cle by simp
    qed
    then show ?thesis using eq sub tk by (auto simp: claim_inv_def)
  next
    case nd: False
    then have c: "0 < blocksRemaining s" "blocksRemaining s < nblocks"
      using inv by (simp_all add: claim_inv_def)
    then have c0: "blocksRemaining s \<noteq> 0" by (simp add: word_neq_0_conv)
    have upb: "unat pb = unat (blocksRemaining s) - 1"
      unfolding pb_def using c0 by (rule unat_minus_one)
    have pblt: "pb < nblocks" using c upb by (simp add: word_less_nat_alt)
    have pbpos: "pb \<noteq> 0 \<Longrightarrow> 0 < pb" by (simp add: word_neq_0_conv)
    show ?thesis
    proof (cases "pb + nthreads < nthreads")
      case True
      then have eq: "claim nthreads w s
             = s\<lparr>blocksRemaining := pb, drained := (pb = 0), running := running s - {w}\<rparr>"
        using w nd by (simp add: claim_def Let_def pb_def)
      show ?thesis using eq sub tk pblt pbpos by (auto simp: claim_inv_def)
    next
      case False
      then have eq: "claim nthreads w s
             = s\<lparr>blocksRemaining := pb, drained := (pb = 0), taken := pb # taken s\<rparr>"
        using w nd by (simp add: claim_def Let_def pb_def)
      show ?thesis using eq sub tk pblt pbpos by (auto simp: claim_inv_def)
    qed
  qed
qed

lemma run_claims_inv:
  "claim_inv nthreads nblocks s \<Longrightarrow> nthreads \<noteq> 0
   \<Longrightarrow> claim_inv nthreads nblocks (run_claims nthreads ws s)"
  unfolding run_claims_def
  by (induction ws arbitrary: s) (simp_all add: claim_step_inv)

text \<open>
  C9. With \<open>nthreads \<ge> 1\<close> workers and \<open>nblocks \<ge> 1\<close> blocks, after any schedule \<open>ws\<close> of
  claims (each an atomic decrement of the 64-bit counter modulo \<open>2^64\<close>, the new value
  taken as block index): no value ever used as a block index is a wrapped one (every
  one is below \<open>nblocks\<close>); and once the counter has reached zero, the next decrement by
  any worker \<open>w\<close> still in its loop yields a value \<open>v\<close> with
  \<open>2^64 - nthreads \<le> v \<le> 2^64 - 1\<close> for which the test \<open>v + nthreads < nthreads\<close>
  (modulo \<open>2^64\<close>) is true, so that the worker leaves its loop and \<open>v\<close> is not used.
\<close>

theorem claim_after_drain:
  assumes n: "nthreads \<noteq> 0" and b: "nblocks \<noteq> 0"
  shows "let s = run_claims nthreads ws (claim_init nthreads nblocks) in
         (\<forall>b \<in> set (taken s). b < nblocks)
         \<and> (drained s \<and> w \<in> running s \<longrightarrow>
              2 ^ 64 - unat nthreads \<le> unat (blocksRemaining s - 1)
              \<and> blocksRemaining s - 1 + nthreads < nthreads
              \<and> blocksRemaining (claim nthreads w s) = blocksRemaining s - 1
              \<and> w \<notin> running (claim nthreads w s)
              \<and> taken (claim nthreads w s) = taken s)"
proof -
  define s where "s = run_claims nthreads ws (claim_init nthreads nblocks)"
  have inv: "claim_inv nthreads nblocks s"
    unfolding s_def by (rule run_claims_inv [OF claim_init_inv [OF b] n])
  have "(\<forall>b \<in> set (taken s). b < nblocks)
         \<and> (drained s \<and> w \<in> running s \<longrightarrow>
              2 ^ 64 - unat nthreads \<le> unat (blocksRemaining s - 1)
              \<and> blocksRemaining s - 1 + nthreads < nthreads
              \<and> blocksRemaining (claim nthreads w s) = blocksRemaining s - 1
              \<and> w \<notin> running (claim nthreads w s)
              \<and> taken (claim nthreads w s) = taken s)"
  proof (intro conjI impI)
    show "\<forall>b \<in> set (taken s). b < nblocks" using inv by (simp add: claim_inv_def)
  next
    assume dw: "drained s \<and> w \<in> running s"
    then have x: "2 ^ 64 \<le> unat (blocksRemaining s - 1) + unat nthreads"
      using claim_drained_exit [OF inv _ _ n] by blast
    then show "2 ^ 64 - unat nthreads \<le> unat (blocksRemaining s - 1)" by simp
    from x show t: "blocksRemaining s - 1 + nthreads < nthreads" by (simp add: claim_test_iff)
    show "blocksRemaining (claim nthreads w s) = blocksRemaining s - 1"
      using dw t by (simp add: claim_def Let_def)
    show "w \<notin> running (claim nthreads w s)" using dw t by (simp add: claim_def Let_def)
    show "taken (claim nthreads w s) = taken s" using dw t by (simp add: claim_def Let_def)
  qed
  then show ?thesis by (simp add: s_def Let_def)
qed

theorem claim_after_drain_witness:
  "(2 :: 64 word) \<noteq> 0 \<and> (3 :: 64 word) \<noteq> 0
   \<and> drained (run_claims 2 [0, 1, 0] (claim_init 2 3))
   \<and> 1 \<in> running (run_claims 2 [0, 1, 0] (claim_init 2 3))
   \<and> taken (run_claims 2 [0, 1, 0] (claim_init 2 3)) = [0, 1, 2]
   \<and> blocksRemaining (run_claims 2 [0, 1, 0] (claim_init 2 3)) = - 1
   \<and> blocksRemaining (claim 2 1 (run_claims 2 [0, 1, 0] (claim_init 2 3))) = - 2
   \<and> 1 \<notin> running (claim 2 1 (run_claims 2 [0, 1, 0] (claim_init 2 3)))
   \<and> taken (claim 2 1 (run_claims 2 [0, 1, 0] (claim_init 2 3))) = [0, 1, 2]"
proof -
  have 1: "(2 :: 64 word) \<noteq> 0" and 2: "(3 :: 64 word) \<noteq> 0" by simp_all
  have 3: "drained (run_claims 2 [0, 1, 0] (claim_init 2 3))
           \<and> 1 \<in> running (run_claims 2 [0, 1, 0] (claim_init 2 3))
           \<and> taken (run_claims 2 [0, 1, 0] (claim_init 2 3)) = [0, 1, 2]
           \<and> blocksRemaining (run_claims 2 [0, 1, 0] (claim_init 2 3)) = - 1"
    by (simp add: run_claims_def claim_def claim_init_def Let_def)
  from claim_after_drain [OF 1 2, of "[0, 1, 0]" 1] 1 2 3 show ?thesis
    by (simp add: Let_def)
qed


section \<open>The empty range and the one-element range\<close>

lemma sdiv_smod_zero: "(0 :: int) sdiv b = 0" "(0 :: int) smod b = 0"
  by (simp_all add: signed_divide_int_def signed_modulo_int_def)

lemma down_block_loop_out_of_range:
  "0 < k \<Longrightarrow> \<not> (0 \<le> parent \<and> parent < int (length a))
   \<Longrightarrow> down_block_loop lt a len parent k = Inl OutOfRange"
  by (cases k) auto

text \<open>
  C8, evaluated on the code. On the empty range \<open>make_heap\<close>, \<open>push_heap\<close>, \<open>pop_heap\<close>,
  \<open>sort_heap\<close> and the observer variants of \<open>make_heap\<close> and \<open>sort_heap\<close> leave the range
  empty without touching an element (the observer's state is unchanged), and \<open>is_heap\<close>
  is true. The observer variants of \<open>push_heap\<close> and \<open>pop_heap\<close> hand the slot before
  \<open>first\<close> to the observer, and \<open>parallel_make_heap\<close> claims block \<open>2^64 - 1\<close> and reads
  the slot before \<open>first\<close>: each is an access outside the range.
\<close>

theorem empty_range_operations:
  "make_heap lt [] = [] \<and> push_heap lt [] = [] \<and> pop_heap lt [] = [] \<and> sort_heap lt [] = []
   \<and> is_heap lt []
   \<and> make_heap_cb lt moved [] s = ([], s) \<and> sort_heap_cb lt moved [] s = ([], s)
   \<and> push_heap_cb lt moved [] s = Inl OutOfRange
   \<and> pop_heap_cb lt moved [] s = Inl OutOfRange
   \<and> parallel_make_heap lt [] 64 4 hw = Some (Inl OutOfRange)"
proof -
  have "is_heap lt []" by (simp add: is_heap_def is_heap_until_def is_heap_until_loop.simps)
  moreover have "sort_heap lt [] = []" by (simp add: sort_heap_def sort_heap_loop.simps)
  moreover have "sort_heap_cb lt moved [] s = ([], s)"
    by (simp add: sort_heap_cb_def sort_heap_cb_loop.simps)
  moreover have "parallel_make_heap lt [] 64 4 hw = Some (Inl OutOfRange)"
    by (simp add: parallel_make_heap_def Let_def sdiv_smod_zero down_block_def
        down_block_loop_out_of_range)
  ultimately show ?thesis
    by (simp add: make_heap_def push_heap_def pop_heap_def make_heap_cb_def push_heap_cb_def
        pop_heap_cb_def)
qed

section \<open>The parallel build against the sequential one\<close>

text \<open>A block of \<open>k\<close> parents ending just below \<open>t\<close>, swept by \<open>__down_block\<close>, is \<open>k\<close>
  rounds of the loop of \<open>make_heap\<close>.\<close>

lemma down_block_loop_sweep:
  "k \<le> t \<Longrightarrow> t \<le> length a \<Longrightarrow>
   \<exists>a'. down_block_loop lt a len (int t - 1) k = Inr a' \<and> length a' = length a
        \<and> make_heap_loop lt a' len (t - k) = make_heap_loop lt a len t"
proof (induction k arbitrary: a t)
  case 0
  then show ?case by simp
next
  case (Suc k)
  then obtain p where t: "t = Suc p" by (cases t) auto
  define a1 where "a1 = down_heap lt a len p (a ! p)"
  have rng: "0 \<le> int t - 1 \<and> int t - 1 < int (length a)" using Suc.prems t by simp
  have np: "nat (int t - 1) = p" "int t - 1 - 1 = int p - 1" using t by simp_all
  have step: "down_block_loop lt a len (int t - 1) (Suc k) = down_block_loop lt a1 len (int p - 1) k"
    using rng np by (simp add: a1_def)
  have "\<exists>a'. down_block_loop lt a1 len (int p - 1) k = Inr a' \<and> length a' = length a1
        \<and> make_heap_loop lt a' len (p - k) = make_heap_loop lt a1 len p"
    using Suc.prems t by (intro Suc.IH) (simp_all add: a1_def)
  then show ?case using step t by (simp add: a1_def)
qed

lemma sint_of_nat_64: "x < 2 ^ 63 \<Longrightarrow> sint (of_nat x :: 64 word) = int x"
  by (simp add: signed_of_nat signed_take_bit_int_eq_self)

lemma unat_of_nat_64: "x < 2 ^ 64 \<Longrightarrow> unat (of_nat x :: 64 word) = x"
  by (simp add: unat_of_nat)

lemma unat_of_int_64: "0 \<le> x \<Longrightarrow> x < 2 ^ 64 \<Longrightarrow> unat (word_of_int x :: 64 word) = nat x"
proof -
  assume x: "0 \<le> x" "x < 2 ^ 64"
  then have "(word_of_int x :: 64 word) = of_nat (nat x)" by simp
  moreover have "nat x < 2 ^ 64" using x by (simp add: nat_less_iff)
  ultimately show ?thesis by (simp only: unat_of_nat_64)
qed

lemma unat_neg_of_nat_64:
  "1 \<le> i \<Longrightarrow> i < 2 ^ 64 \<Longrightarrow> unat (- of_nat i :: 64 word) = 2 ^ 64 - i"
proof -
  assume i: "1 \<le> i" "i < 2 ^ 64"
  have "unat (0 - of_nat i :: 64 word)
          = (if unat (of_nat i :: 64 word) \<le> unat (0 :: 64 word)
             then unat (0 :: 64 word) - unat (of_nat i :: 64 word)
             else unat (0 :: 64 word) + 2 ^ size (0 :: 64 word) - unat (of_nat i :: 64 word))"
    by (rule unat_sub_if_size)
  then show ?thesis using i by (simp add: unat_of_nat_64 word_size)
qed

lemma thread_worker_exit:
  assumes i: "1 \<le> i" "int i \<le> nthr" and n: "nthr < 2 ^ 63"
  shows "thread_worker lt nthr bs len a (1 - of_nat i) = Some (Inr a, - of_nat i)"
proof -
  have i64: "i < 2 ^ 64" using i n by (simp add: nat_less_iff)
  have "2 ^ 64 \<le> unat (- of_nat i :: 64 word) + unat (word_of_int nthr :: 64 word)"
    using i n i64 by (simp add: unat_neg_of_nat_64 unat_of_int_64)
  then have "- of_nat i + word_of_int nthr < (word_of_int nthr :: 64 word)"
    by (simp only: claim_test_iff)
  then show ?thesis by (subst thread_worker.simps) (simp add: Let_def)
qed

lemma thread_worker_blocks:
  assumes B: "1 \<le> B" and n: "1 \<le> nthr" "nthr < 2 ^ 63"
  shows "j * B \<le> length a \<Longrightarrow> length a < 2 ^ 63 \<Longrightarrow>
         thread_worker lt nthr (int B) len a (of_nat j)
           = Some (Inr (make_heap_loop lt a len (j * B)), - 1)"
proof (induction j arbitrary: a)
  case 0
  show ?case using thread_worker_exit [of 1 nthr lt "int B" len a] n by simp
next
  case (Suc j)
  have jb: "j * B < 2 ^ 63" "j < 2 ^ 63" "B < 2 ^ 63"
  proof -
    have t: "Suc j * B < 2 ^ 63" using Suc.prems by (rule le_less_trans)
    have "j * B \<le> Suc j * B" by simp
    then show 1: "j * B < 2 ^ 63" using t by (rule le_less_trans)
    have "j \<le> j * B" using B by simp
    then show "j < 2 ^ 63" using 1 by (rule le_less_trans)
    have "B \<le> Suc j * B" by simp
    then show "B < 2 ^ 63" using t by (rule le_less_trans)
  qed
  have pb: "(of_nat (Suc j) :: 64 word) - 1 = of_nat j" by simp
  have "unat (of_nat j :: 64 word) + unat (word_of_int nthr :: 64 word) < 2 ^ 64"
    using jb n by (simp add: unat_of_nat_64 unat_of_int_64)
  then have ntest: "\<not> (of_nat j + word_of_int nthr < (word_of_int nthr :: 64 word))"
    by (simp only: claim_test_iff)
  have "(of_nat j :: 64 word) * word_of_int (int B) = of_nat (j * B)" by simp
  then have bf: "sint ((of_nat j :: 64 word) * word_of_int (int B)) = int (j * B)"
    using jb by (simp only: sint_of_nat_64)
  have "\<exists>a'. down_block_loop lt a len (int (Suc j * B) - 1) B = Inr a' \<and> length a' = length a
        \<and> make_heap_loop lt a' len (Suc j * B - B) = make_heap_loop lt a len (Suc j * B)"
    using Suc.prems(1) by (intro down_block_loop_sweep) simp_all
  then obtain a1 where
    d: "down_block_loop lt a len (int (Suc j * B) - 1) B = Inr a1"
    and l1: "length a1 = length a"
    and m1: "make_heap_loop lt a1 len (j * B) = make_heap_loop lt a len (Suc j * B)"
    by auto
  have e: "int (j * B) + int B - 1 = int (Suc j * B) - 1" by (simp add: algebra_simps)
  have db: "down_block lt a len (int (j * B)) (int B) = Inr a1"
    unfolding down_block_def e nat_int by (rule d)
  have "thread_worker lt nthr (int B) len a (of_nat (Suc j))
          = thread_worker lt nthr (int B) len a1 (of_nat j)"
    by (subst thread_worker.simps) (simp only: Let_def pb ntest bf db if_False sum.case)
  also have "\<dots> = Some (Inr (make_heap_loop lt a1 len (j * B)), - 1)"
    using Suc.prems l1 by (intro Suc.IH) simp_all
  finally show ?case using m1 by simp
qed

lemma run_workers_exit:
  assumes n: "nthr < 2 ^ 63"
  shows "1 \<le> i \<Longrightarrow> int (i + k) \<le> nthr + 1 \<Longrightarrow>
         run_workers lt nthr bs len k a (1 - of_nat i) = Some (Inr a)"
proof (induction k arbitrary: i)
  case 0
  then show ?case by simp
next
  case (Suc k)
  have tw: "thread_worker lt nthr bs len a (1 - of_nat i) = Some (Inr a, - of_nat i)"
    using Suc.prems n by (intro thread_worker_exit) simp_all
  have e: "(- of_nat i :: 64 word) = 1 - of_nat (Suc i)" by simp
  have rw: "run_workers lt nthr bs len k a (1 - of_nat (Suc i)) = Some (Inr a)"
    using Suc.prems by (intro Suc.IH) simp_all
  show ?case by (simp only: run_workers.simps tw option.case prod.case sum.case e rw)
qed


lemma sdiv_smod_nat:
  "0 < y \<Longrightarrow> int x sdiv int y = int (x div y)"
  "0 < y \<Longrightarrow> int x smod int y = int (x mod y)"
  by (simp_all add: signed_divide_int_def signed_modulo_int_def sgn_if zdiv_int zmod_int)

lemma last_block_bounds:
  assumes P: "1 \<le> (P :: nat)" and B: "1 \<le> (B :: nat)"
    and nb_def: "nb = (if P mod B \<noteq> 0 then P div B + 1 else P div B)"
  shows "1 \<le> nb" and "(nb - 1) * B < P" and "1 \<le> P - (nb - 1) * B"
proof -
  have dm: "P div B * B + P mod B = P" by (rule div_mult_mod_eq)
  show 1: "1 \<le> nb"
  proof (cases "P mod B \<noteq> 0")
    case True then show ?thesis by (simp add: nb_def)
  next
    case False
    then have "P div B * B = P" using dm by simp
    then have "P div B \<noteq> 0" using P by (cases "P div B = 0") auto
    then show ?thesis using False by (simp add: nb_def)
  qed
  show 2: "(nb - 1) * B < P"
  proof (cases "P mod B \<noteq> 0")
    case True
    then have "(nb - 1) * B = P div B * B" by (simp add: nb_def)
    then show ?thesis using dm True by linarith
  next
    case False
    then have e: "nb * B = P" using dm by (simp add: nb_def)
    obtain k where k: "nb = Suc k" using 1 by (cases nb) auto
    have "(nb - 1) * B + B = nb * B" unfolding k by simp
    then show ?thesis using e B by linarith
  qed
  then show "1 \<le> P - (nb - 1) * B" by simp
qed

lemma parallel_make_heap_refines:
  assumes len: "2 \<le> length a" "length a < 2 ^ 63" and bs: "1 \<le> blockSize"
  shows "parallel_make_heap lt a blockSize maxThreads hw = Some (Inr (make_heap lt a))"
proof -
  define P where "P = length a div 2"
  define B where "B = nat blockSize"
  define nb where "nb = (if P mod B \<noteq> 0 then P div B + 1 else P div B)"
  define L where "L = P - (nb - 1) * B"
  define mt where "mt = (if maxThreads \<le> 0 then int (max hw 2) else maxThreads)"
  define nthr0 where "nthr0 = sint (ucast (min (of_nat nb :: 64 word) (word_of_int mt)) :: 32 word)"
  define nthr where "nthr = (if nthr0 < 1 then 1 else nthr0)"
  have P: "1 \<le> P" "P \<le> length a" using len by (simp_all add: P_def)
  have B: "1 \<le> B" "blockSize = int B" using bs by (simp_all add: B_def)
  note lb = last_block_bounds [OF P(1) B(1) nb_def]
  have n63: "1 \<le> nthr" "nthr < 2 ^ 63"
  proof -
    show "1 \<le> nthr" by (simp add: nthr_def)
    have "nthr0 < 2 ^ 31" unfolding nthr0_def using sint_lt [where 'a = 32] by simp
    then show "nthr < 2 ^ 63" by (simp add: nthr_def)
  qed
  have pe: "int (length a) sdiv 2 = int P"
    using sdiv_smod_nat(1) [of 2 "length a"] by (simp add: P_def)
  have q: "int P sdiv blockSize = int (P div B)" "int P smod blockSize = int (P mod B)"
    using B sdiv_smod_nat [of B P] by simp_all
  have nblocks: "(if int P smod blockSize \<noteq> 0 then (word_of_int (int P sdiv blockSize) :: 64 word) + 1
                  else word_of_int (int P sdiv blockSize)) = of_nat nb"
    unfolding q by (simp add: nb_def)
  have pb: "(of_nat nb :: 64 word) - 1 = of_nat (nb - 1)" using lb(1) by simp
  have nbB: "(nb - 1) * B < 2 ^ 63"
    using lb(2) P(2) len(2) by linarith
  have "(of_nat (nb - 1) :: 64 word) * word_of_int blockSize = of_nat ((nb - 1) * B)"
    by (simp add: B(2))
  then have bf: "sint ((of_nat (nb - 1) :: 64 word) * word_of_int blockSize) = int ((nb - 1) * B)"
    using nbB by (simp only: sint_of_nat_64)
  have bl: "int P - int ((nb - 1) * B) = int L" using lb(2) by (simp add: L_def)
  have "\<exists>a'. down_block_loop lt a (length a) (int P - 1) L = Inr a' \<and> length a' = length a
        \<and> make_heap_loop lt a' (length a) (P - L) = make_heap_loop lt a (length a) P"
    using P by (intro down_block_loop_sweep) (simp_all add: L_def)
  then obtain a1 where
    d: "down_block_loop lt a (length a) (int P - 1) L = Inr a1"
    and l1: "length a1 = length a"
    and m1: "make_heap_loop lt a1 (length a) (P - L) = make_heap_loop lt a (length a) P"
    by auto
  have PL: "P - L = (nb - 1) * B" using lb(2) by (simp add: L_def)
  have e: "int ((nb - 1) * B) + int L - 1 = int P - 1" using lb(2) by (simp add: L_def)
  have db: "down_block lt a (length a) (int ((nb - 1) * B)) (int L) = Inr a1"
    unfolding down_block_def e nat_int by (rule d)
  obtain k0 where k0: "nat nthr = Suc k0" using n63(1) by (cases "nat nthr") auto
  have af: "make_heap_loop lt a1 (length a) ((nb - 1) * B) = make_heap lt a"
    using m1 PL by (simp add: make_heap_def P_def)
  have "thread_worker lt nthr (int B) (length a) a1 (of_nat (nb - 1))
              = Some (Inr (make_heap_loop lt a1 (length a) ((nb - 1) * B)), - 1)"
    using lb(2) P(2) l1 len(2) by (intro thread_worker_blocks [OF B(1) n63]) simp_all
  then have tw: "thread_worker lt nthr (int B) (length a) a1 (of_nat (nb - 1))
              = Some (Inr (make_heap lt a), - 1)"
    by (simp only: af)
  have e2: "(- 1 :: 64 word) = 1 - of_nat 2" by simp
  have rw: "run_workers lt nthr (int B) (length a) k0 (make_heap lt a) (1 - of_nat 2)
              = Some (Inr (make_heap lt a))"
    using k0 n63 by (intro run_workers_exit) simp_all
  have run: "run_workers lt nthr blockSize (length a) (nat nthr) a1 (of_nat (nb - 1))
               = Some (Inr (make_heap lt a))"
    unfolding k0 B(2)
    by (simp only: run_workers.simps tw option.case prod.case sum.case e2 rw)
  have bs0: "(blockSize = 0) = False" using bs by simp
  have "parallel_make_heap lt a blockSize maxThreads hw
          = (case down_block lt a (length a) (int ((nb - 1) * B)) (int L) of
               Inl e \<Rightarrow> Some (Inl e)
             | Inr a' \<Rightarrow> run_workers lt nthr blockSize (length a) (nat nthr) a' (of_nat (nb - 1)))"
    unfolding parallel_make_heap_def Let_def pe nblocks bs0 if_False
      mt_def [symmetric] nthr0_def [symmetric] nthr_def [symmetric] pb bf bl
    by (rule refl)
  then show ?thesis by (simp only: db sum.case run)
qed


lemma sint_neg_word_of_int_64:
  "1 \<le> b \<Longrightarrow> b < 2 ^ 63 \<Longrightarrow> sint (- 1 * word_of_int b :: 64 word) = - b"
proof -
  assume b: "1 \<le> b" "b < 2 ^ 63"
  have "(- 1 * word_of_int b :: 64 word) = word_of_int (- b)" by simp
  then have "sint (- 1 * word_of_int b :: 64 word) = signed_take_bit 63 (- b)"
    by (simp only: sint_sbintrunc') simp
  also have "\<dots> = - b" using b by (intro signed_take_bit_int_eq_self) simp_all
  finally show ?thesis .
qed

lemma parallel_make_heap_short:
  assumes len: "length a < 2" and bs: "1 \<le> blockSize" "blockSize < 2 ^ 63"
  shows "parallel_make_heap lt a blockSize maxThreads hw = Some (Inl OutOfRange)"
proof -
  have pe: "int (length a) sdiv 2 = 0"
    using len by (simp add: signed_divide_int_def)
  have bs0: "(blockSize = 0) = False" using bs by simp
  have pb: "(0 :: 64 word) - 1 = - 1" by simp
  have nblocks: "(if (0 :: int) smod blockSize \<noteq> 0
                  then (word_of_int (0 sdiv blockSize) :: 64 word) + 1
                  else word_of_int (0 sdiv blockSize)) = 0"
    by (simp add: sdiv_smod_zero)
  have bf: "sint (- 1 * word_of_int blockSize :: 64 word) = - blockSize"
    using bs by (rule sint_neg_word_of_int_64)
  have db: "down_block lt a (length a) (- blockSize) (0 - - blockSize) = Inl OutOfRange"
    unfolding down_block_def using bs by (intro down_block_loop_out_of_range) simp_all
  show ?thesis
    unfolding parallel_make_heap_def Let_def pe nblocks bs0 if_False pb bf db sum.case
    by (rule refl)
qed

lemma make_heap_example:
  "make_heap (<) [4, 1, 3, 2, 16, 9, 10, 14, 8, 7 :: nat] = [16, 14, 10, 8, 7, 9, 3, 2, 4, 1]"
  by code_simp

text \<open>
  C4. In the run where the blocks are processed in decreasing block-index order, for
  every sequence of at least two elements, every \<open>blockSize \<ge> 1\<close> and every \<open>maxThreads\<close>
  (and whatever \<open>hardware_concurrency\<close> returns), \<open>parallel_make_heap\<close> terminates and
  the block sweeps of \<open>__down_block\<close> compose to exactly the result of the loop of
  \<open>make_heap\<close>, which is a heap holding the same multiset. On a sequence of fewer than
  two elements there is no internal node: \<open>nblocks\<close> is \<open>0\<close>, the calling thread's first
  (untested) decrement wraps the counter to \<open>2^64 - 1\<close>, \<open>blockFront\<close> becomes \<open>-blockSize\<close>
  and \<open>blockLength\<close> becomes \<open>blockSize\<close>, so \<open>__down_block\<close> starts at \<open>parent = -1\<close> and
  reads outside the range, where sequential \<open>make_heap\<close> returns the sequence as it is.
  The bounds \<open>2^63\<close> are those of the signed 64-bit \<open>difference_type\<close>.
\<close>

theorem parallel_make_heap_refines_unless_short:
  assumes "1 \<le> blockSize" "blockSize < 2 ^ 63" "length a < 2 ^ 63"
  shows "parallel_make_heap lt a blockSize maxThreads hw
           = Some (if 2 \<le> length a then Inr (make_heap lt a) else Inl OutOfRange)"
proof (cases "2 \<le> length a")
  case True
  then show ?thesis using assms by (simp add: parallel_make_heap_refines)
next
  case False
  then have "length a < 2" by simp
  then show ?thesis using assms False by (simp add: parallel_make_heap_short)
qed

theorem parallel_make_heap_refines_unless_short_witness:
  "parallel_make_heap (<) [4, 1, 3, 2, 16, 9, 10, 14, 8, 7 :: nat] 2 3 8
     = Some (Inr [16, 14, 10, 8, 7, 9, 3, 2, 4, 1])
   \<and> parallel_make_heap (<) [7 :: nat] 64 4 8 = Some (Inl OutOfRange)"
  using parallel_make_heap_refines_unless_short [of 2 "[4, 1, 3, 2, 16, 9, 10, 14, 8, 7 :: nat]" "(<)" 3 8]
    parallel_make_heap_refines_unless_short [of 64 "[7 :: nat]" "(<)" 4 8]
    make_heap_example
  by simp


section \<open>The observer variants and the external index\<close>

lemma up_heap_cb_stop_eq:
  "\<not> (0 < child \<and> lt (a ! ((child - 1) div 2)) p) \<Longrightarrow>
   up_heap_cb lt moved a s child p ppos = (a[child := p], moved (a[child := p] ! child) ppos child s)"
  by (subst up_heap_cb.simps) (auto simp: Let_def)

lemma up_heap_cb_ascend_eq:
  "0 < child \<Longrightarrow> lt (a ! ((child - 1) div 2)) p \<Longrightarrow>
   up_heap_cb lt moved a s child p ppos
     = up_heap_cb lt moved (a[child := a ! ((child - 1) div 2)])
         (moved (a[child := a ! ((child - 1) div 2)] ! child) ((child - 1) div 2) child s)
         ((child - 1) div 2) p ppos"
  by (subst up_heap_cb.simps) (simp add: Let_def)

lemma distinct_update_move:
  assumes "distinct (a[h := p])" "h < length a" "c < length a" "h \<noteq> c"
  shows "distinct (a[h := a ! c, c := p])"
  using assms mset_update_move [of h a c p] by (metis mset_eq_imp_distinct_iff)

lemma set_take_update_move:
  assumes "h < len" "c < len" "h \<noteq> c" "len \<le> length a"
  shows "set (take len (a[h := a ! c, c := p])) = set (take len (a[h := p]))"
proof -
  have "mset ((take len a)[h := (take len a) ! c, c := p]) = mset ((take len a)[h := p])"
    using assms by (intro mset_update_move) simp_all
  then have "mset (take len (a[h := a ! c, c := p])) = mset (take len (a[h := p]))"
    using assms by (simp add: take_update_swap)
  then show ?thesis by (rule mset_eq_setD)
qed

lemma distinct_nth_neq:
  "distinct xs \<Longrightarrow> i < length xs \<Longrightarrow> j < length xs \<Longrightarrow> i \<noteq> j \<Longrightarrow> xs ! i \<noteq> xs ! j"
  by (simp add: nth_eq_iff_index_eq)

text \<open>One step of either sift under the tracking observer: the value at slot \<open>c\<close> moves
  into the open slot \<open>h\<close>.\<close>

lemma track_step:
  assumes d: "distinct (b[h := p])" and h: "h < len" and c: "c < len" "c \<noteq> h"
    and len: "len \<le> length b"
    and tr: "\<forall>i<len. i \<noteq> h \<longrightarrow> m (b ! i) = i" and mp: "m p = ppos"
  shows "track_move (b[h := b ! c] ! h) c h (m, ok) = (m(b ! c := h), ok)"
    and "distinct (b[h := b ! c, c := p])"
    and "\<forall>i<len. i \<noteq> c \<longrightarrow> (m(b ! c := h)) (b[h := b ! c] ! i) = i"
    and "(m(b ! c := h)) p = ppos"
    and "\<forall>x. x \<notin> set (take len (b[h := p])) \<longrightarrow> (m(b ! c := h)) x = m x"
proof -
  have hl: "h < length b" and cl: "c < length b" using h c len by simp_all
  show "track_move (b[h := b ! c] ! h) c h (m, ok) = (m(b ! c := h), ok)"
    using hl tr c by simp
  show "distinct (b[h := b ! c, c := p])"
    using distinct_update_move [OF d hl cl] c by simp
  have neq: "\<And>i. i < len \<Longrightarrow> i \<noteq> h \<Longrightarrow> i \<noteq> c \<Longrightarrow> b ! i \<noteq> b ! c"
  proof -
    fix i assume i: "i < len" "i \<noteq> h" "i \<noteq> c"
    have "(b[h := p]) ! i \<noteq> (b[h := p]) ! c"
      using d i cl len by (intro distinct_nth_neq) simp_all
    then show "b ! i \<noteq> b ! c" using i c by simp
  qed
  show "\<forall>i<len. i \<noteq> c \<longrightarrow> (m(b ! c := h)) (b[h := b ! c] ! i) = i"
  proof (intro allI impI)
    fix i assume i: "i < len" "i \<noteq> c"
    show "(m(b ! c := h)) (b[h := b ! c] ! i) = i"
    proof (cases "i = h")
      case True
      then show ?thesis using hl by simp
    next
      case False
      then show ?thesis using i neq [of i] tr by simp
    qed
  qed
  have "(b[h := p]) ! h \<noteq> (b[h := p]) ! c"
    using d hl cl c by (intro distinct_nth_neq) simp_all
  then have pc: "p \<noteq> b ! c" using hl c by simp
  then show "(m(b ! c := h)) p = ppos" using mp by simp
  show "\<forall>x. x \<notin> set (take len (b[h := p])) \<longrightarrow> (m(b ! c := h)) x = m x"
  proof (intro allI impI)
    fix x assume x: "x \<notin> set (take len (b[h := p]))"
    have "(take len (b[h := p])) ! c \<in> set (take len (b[h := p]))"
      using c len by (intro nth_mem) simp
    then have "b ! c \<in> set (take len (b[h := p]))" using c by simp
    with x have "x \<noteq> b ! c" by auto
    then show "(m(b ! c := h)) x = m x" by simp
  qed
qed

text \<open>The final placement of either sift under the tracking observer.\<close>

lemma track_place:
  assumes d: "distinct (b[h := p])" and h: "h < len" and len: "len \<le> length b"
    and tr: "\<forall>i<len. i \<noteq> h \<longrightarrow> m (b ! i) = i" and mp: "m p = ppos"
  shows "track_move (b[h := p] ! h) ppos h (m, ok) = (m(p := h), ok)"
    and "\<forall>i<len. (m(p := h)) (b[h := p] ! i) = i"
    and "\<forall>x. x \<notin> set (take len (b[h := p])) \<longrightarrow> (m(p := h)) x = m x"
proof -
  have hl: "h < length b" using h len by simp
  show "track_move (b[h := p] ! h) ppos h (m, ok) = (m(p := h), ok)" using hl mp by simp
  show "\<forall>i<len. (m(p := h)) (b[h := p] ! i) = i"
  proof (intro allI impI)
    fix i assume i: "i < len"
    show "(m(p := h)) (b[h := p] ! i) = i"
    proof (cases "i = h")
      case True
      then show ?thesis using hl by simp
    next
      case False
      have "(b[h := p]) ! i \<noteq> (b[h := p]) ! h"
        using d i hl len False by (intro distinct_nth_neq) simp_all
      then show ?thesis using False i tr hl by simp
    qed
  qed
  show "\<forall>x. x \<notin> set (take len (b[h := p])) \<longrightarrow> (m(p := h)) x = m x"
  proof (intro allI impI)
    fix x assume x: "x \<notin> set (take len (b[h := p]))"
    have "(take len (b[h := p])) ! h \<in> set (take len (b[h := p]))"
      using h len by (intro nth_mem) simp
    then have "p \<in> set (take len (b[h := p]))" using h hl by simp
    with x show "(m(p := h)) x = m x" by auto
  qed
qed

lemma down_heap_cb_tracks:
  "hole < len \<Longrightarrow> len \<le> length b \<Longrightarrow> distinct (b[hole := p])
   \<Longrightarrow> \<forall>i<len. i \<noteq> hole \<longrightarrow> m (b ! i) = i \<Longrightarrow> m p = ppos
   \<Longrightarrow> \<exists>m'. down_heap_cb lt track_move b (m, ok) len hole p ppos
               = (down_heap lt b len hole p, (m', ok))
          \<and> (\<forall>i<len. m' (down_heap lt b len hole p ! i) = i)
          \<and> (\<forall>x. x \<notin> set (take len (b[hole := p])) \<longrightarrow> m' x = m x)"
proof (induction "len - hole" arbitrary: b m hole rule: less_induct)
  case less
  note place = track_place [OF less.prems(3,1,2,4,5)]
  show ?case
  proof (cases "2 * hole + 1 < len")
    case False
    show ?thesis using place False
      by (intro exI [of _ "m(p := hole)"]) (simp add: down_heap_cb_leaf down_heap_leaf)
  next
    case True
    define c where "c = larger_child lt b len hole"
    have c: "hole < c" "c < len" using True by (simp_all add: c_def larger_child_def)
    show ?thesis
    proof (cases "lt (b ! c) p")
      case lt: True
      show ?thesis using place True lt
        by (intro exI [of _ "m(p := hole)"])
           (simp add: down_heap_cb_stop_eq down_heap_stop_eq c_def)
    next
      case nlt: False
      define b1 where "b1 = b[hole := b ! c]"
      define m1 where "m1 = m(b ! c := hole)"
      have cne: "c \<noteq> hole" using c by simp
      note step = track_step [OF less.prems(3,1) c(2) cne less.prems(2,4,5)]
      have eq: "down_heap_cb lt track_move b (m, ok) len hole p ppos
                  = down_heap_cb lt track_move b1 (m1, ok) len c p ppos"
        using True nlt step(1) by (simp add: down_heap_cb_descend_eq c_def b1_def m1_def)
      have eq': "down_heap lt b len hole p = down_heap lt b1 len c p"
        using True nlt by (simp add: down_heap_descend_eq c_def b1_def)
      have "\<exists>m'. down_heap_cb lt track_move b1 (m1, ok) len c p ppos
               = (down_heap lt b1 len c p, (m', ok))
          \<and> (\<forall>i<len. m' (down_heap lt b1 len c p ! i) = i)
          \<and> (\<forall>x. x \<notin> set (take len (b1[c := p])) \<longrightarrow> m' x = m1 x)"
      proof (rule less.hyps)
        show "len - c < len - hole" using c by simp
        show "c < len" by (rule c)
        show "len \<le> length b1" using less.prems by (simp add: b1_def)
        show "distinct (b1[c := p])" using step(2) by (simp add: b1_def)
        show "\<forall>i<len. i \<noteq> c \<longrightarrow> m1 (b1 ! i) = i" using step(3) by (simp add: b1_def m1_def)
        show "m1 p = ppos" using step(4) by (simp add: m1_def)
      qed
      then obtain m' where
        r: "down_heap_cb lt track_move b1 (m1, ok) len c p ppos = (down_heap lt b1 len c p, (m', ok))"
        and t: "\<forall>i<len. m' (down_heap lt b1 len c p ! i) = i"
        and f: "\<forall>x. x \<notin> set (take len (b1[c := p])) \<longrightarrow> m' x = m1 x"
        by blast
      have "set (take len (b1[c := p])) = set (take len (b[hole := p]))"
        unfolding b1_def using less.prems c cne by (intro set_take_update_move) simp_all
      with f step(5) have "\<forall>x. x \<notin> set (take len (b[hole := p])) \<longrightarrow> m' x = m x"
        by (simp add: m1_def)
      with r t eq eq' show ?thesis by (intro exI [of _ m']) simp
    qed
  qed
qed

lemma up_heap_cb_tracks:
  "hole < len \<Longrightarrow> len \<le> length b \<Longrightarrow> distinct (b[hole := p])
   \<Longrightarrow> \<forall>i<len. i \<noteq> hole \<longrightarrow> m (b ! i) = i \<Longrightarrow> m p = ppos
   \<Longrightarrow> \<exists>m'. up_heap_cb lt track_move b (m, ok) hole p ppos
               = (up_heap lt b hole p, (m', ok))
          \<and> (\<forall>i<len. m' (up_heap lt b hole p ! i) = i)
          \<and> (\<forall>x. x \<notin> set (take len (b[hole := p])) \<longrightarrow> m' x = m x)"
proof (induction hole arbitrary: b m rule: less_induct)
  case (less hole)
  note place = track_place [OF less.prems(3,1,2,4,5)]
  show ?case
  proof (cases "0 < hole \<and> lt (b ! ((hole - 1) div 2)) p")
    case False
    have e1: "up_heap_cb lt track_move b (m, ok) hole p ppos
                = (b[hole := p], track_move (b[hole := p] ! hole) ppos hole (m, ok))"
      using False by (rule up_heap_cb_stop_eq)
    have e2: "up_heap lt b hole p = b[hole := p]" using False by (rule up_heap_stop_eq)
    show ?thesis unfolding e1 e2 place(1) using place(2,3)
      by (intro exI [of _ "m(p := hole)"]) blast
  next
    case True
    define g where "g = (hole - 1) div 2"
    have g: "g < hole" using True parent_less [of hole] by (simp add: g_def)
    then have gl: "g < len" and gne: "g \<noteq> hole" using less.prems by simp_all
    define b1 where "b1 = b[hole := b ! g]"
    define m1 where "m1 = m(b ! g := hole)"
    note step = track_step [OF less.prems(3,1) gl gne less.prems(2,4,5)]
    have eq: "up_heap_cb lt track_move b (m, ok) hole p ppos
                = up_heap_cb lt track_move b1 (m1, ok) g p ppos"
      using True step(1) by (simp add: up_heap_cb_ascend_eq g_def b1_def m1_def)
    have eq': "up_heap lt b hole p = up_heap lt b1 g p"
      using True by (simp add: up_heap_ascend_eq g_def b1_def)
    have "\<exists>m'. up_heap_cb lt track_move b1 (m1, ok) g p ppos = (up_heap lt b1 g p, (m', ok))
          \<and> (\<forall>i<len. m' (up_heap lt b1 g p ! i) = i)
          \<and> (\<forall>x. x \<notin> set (take len (b1[g := p])) \<longrightarrow> m' x = m1 x)"
    proof (rule less.IH)
      show "g < hole" by (rule g)
      show "g < len" by (rule gl)
      show "len \<le> length b1" using less.prems by (simp add: b1_def)
      show "distinct (b1[g := p])" using step(2) by (simp add: b1_def)
      show "\<forall>i<len. i \<noteq> g \<longrightarrow> m1 (b1 ! i) = i" using step(3) by (simp add: b1_def m1_def)
      show "m1 p = ppos" using step(4) by (simp add: m1_def)
    qed
    then obtain m' where
      r: "up_heap_cb lt track_move b1 (m1, ok) g p ppos = (up_heap lt b1 g p, (m', ok))"
      and t: "\<forall>i<len. m' (up_heap lt b1 g p ! i) = i"
      and f: "\<forall>x. x \<notin> set (take len (b1[g := p])) \<longrightarrow> m' x = m1 x"
      by blast
    have "set (take len (b1[g := p])) = set (take len (b[hole := p]))"
      unfolding b1_def using less.prems gl gne by (intro set_take_update_move) simp_all
    with f step(5) have "\<forall>x. x \<notin> set (take len (b[hole := p])) \<longrightarrow> m' x = m x"
      by (simp add: m1_def)
    with r t eq eq' show ?thesis by (intro exI [of _ m']) simp
  qed
qed

lemma tracksI: "length r = n \<Longrightarrow> \<forall>i<n. m (r ! i) = i \<Longrightarrow> tracks m r"
  by (simp add: tracks_def)

lemma distinct_mset_eq: "mset r = mset a \<Longrightarrow> distinct a \<Longrightarrow> distinct r"
  by (metis mset_eq_imp_distinct_iff)

lemma make_heap_cb_loop_tracks:
  "distinct a \<Longrightarrow> tracks m a \<Longrightarrow> k \<le> length a div 2 \<Longrightarrow>
   \<exists>m'. make_heap_cb_loop lt track_move a (m, ok) (length a) k
           = (make_heap_loop lt a (length a) k, (m', ok))
        \<and> tracks m' (make_heap_loop lt a (length a) k)"
proof (induction k arbitrary: a m)
  case 0
  then show ?case by simp
next
  case (Suc k)
  define a1 where "a1 = down_heap lt a (length a) k (a ! k)"
  have k: "k < length a" using Suc.prems by auto
  have id: "a[k := a ! k] = a" by simp
  have "\<exists>m'. down_heap_cb lt track_move a (m, ok) (length a) k (a ! k) k
               = (down_heap lt a (length a) k (a ! k), (m', ok))
          \<and> (\<forall>i<length a. m' (down_heap lt a (length a) k (a ! k) ! i) = i)
          \<and> (\<forall>x. x \<notin> set (take (length a) (a[k := a ! k])) \<longrightarrow> m' x = m x)"
    using Suc.prems k by (intro down_heap_cb_tracks) (simp_all add: tracks_def)
  then obtain m1 where
    r: "down_heap_cb lt track_move a (m, ok) (length a) k (a ! k) k = (a1, (m1, ok))"
    and t: "\<forall>i<length a. m1 (a1 ! i) = i"
    unfolding a1_def by blast
  have l1: "length a1 = length a" by (simp add: a1_def)
  have "mset a1 = mset a" unfolding a1_def using k id by (simp add: mset_down_heap)
  then have d1: "distinct a1" using Suc.prems(1) by (rule distinct_mset_eq)
  have t1: "tracks m1 a1" using l1 t by (rule tracksI)
  have "\<exists>m'. make_heap_cb_loop lt track_move a1 (m1, ok) (length a1) k
           = (make_heap_loop lt a1 (length a1) k, (m', ok))
        \<and> tracks m' (make_heap_loop lt a1 (length a1) k)"
    using d1 t1 Suc.prems(3) l1 by (intro Suc.IH) simp_all
  then show ?case using r l1 by (simp add: a1_def)
qed

lemma pop_setup:
  assumes d: "distinct a" and t: "tracks m a" and l: "lst < length a" and k: "k < lst"
  shows "distinct ((a[lst := a ! k])[k := a ! lst])"
    and "\<forall>i<lst. i \<noteq> k \<longrightarrow> m ((a[lst := a ! k]) ! i) = i"
    and "m (a ! lst) = lst"
    and "a ! k \<notin> set (take lst ((a[lst := a ! k])[k := a ! lst]))"
    and "\<forall>i. lst < i \<and> i < length a \<longrightarrow> a ! i \<notin> set (take lst ((a[lst := a ! k])[k := a ! lst]))"
    and "mset ((a[lst := a ! k])[k := a ! lst]) = mset a"
proof -
  have kl: "k < length a" using k l by simp
  show ms: "mset ((a[lst := a ! k])[k := a ! lst]) = mset a"
    using mset_swap [of k a lst] kl l by simp
  then show "distinct ((a[lst := a ! k])[k := a ! lst])" using d by (rule distinct_mset_eq)
  show "\<forall>i<lst. i \<noteq> k \<longrightarrow> m ((a[lst := a ! k]) ! i) = i"
    using t l by (simp add: tracks_def)
  show "m (a ! lst) = lst" using t l by (simp add: tracks_def)
  have pre: "\<And>x. x \<in> set (take lst ((a[lst := a ! k])[k := a ! lst]))
              \<Longrightarrow> \<exists>j. j \<le> lst \<and> j \<noteq> k \<and> x = a ! j"
  proof -
    fix x assume "x \<in> set (take lst ((a[lst := a ! k])[k := a ! lst]))"
    then obtain j where j: "j < lst" "x = ((a[lst := a ! k])[k := a ! lst]) ! j"
      using l by (auto simp: in_set_conv_nth)
    show "\<exists>j. j \<le> lst \<and> j \<noteq> k \<and> x = a ! j"
    proof (cases "j = k")
      case True
      then have "x = a ! lst" using j kl by simp
      then show ?thesis using k by (intro exI [of _ lst]) simp
    next
      case False
      then have "x = a ! j" using j by simp
      then show ?thesis using False j by (intro exI [of _ j]) simp
    qed
  qed
  show "a ! k \<notin> set (take lst ((a[lst := a ! k])[k := a ! lst]))"
  proof
    assume "a ! k \<in> set (take lst ((a[lst := a ! k])[k := a ! lst]))"
    then obtain j where "j \<le> lst" "j \<noteq> k" "a ! k = a ! j" using pre by blast
    then show False using d kl l by (simp add: nth_eq_iff_index_eq)
  qed
  show "\<forall>i. lst < i \<and> i < length a \<longrightarrow> a ! i \<notin> set (take lst ((a[lst := a ! k])[k := a ! lst]))"
  proof (intro allI impI notI)
    fix i assume i: "lst < i \<and> i < length a"
      and "a ! i \<in> set (take lst ((a[lst := a ! k])[k := a ! lst]))"
    then obtain j where "j \<le> lst" "j \<noteq> k" "a ! i = a ! j" using pre by blast
    then show False using d i by (simp add: nth_eq_iff_index_eq)
  qed
qed

lemma pop_finish:
  assumes d: "distinct a" and t: "tracks m a" and l: "lst < length a" and k: "k < lst"
    and len: "length r = length a" and ms: "mset r = mset a"
    and fr: "\<forall>i. lst \<le> i \<and> i < length a \<longrightarrow> r ! i = (a[lst := a ! k]) ! i"
    and tr: "\<forall>i<lst. m' (r ! i) = i"
    and keep: "\<forall>x. x \<notin> set (take lst ((a[lst := a ! k])[k := a ! lst])) \<longrightarrow> m' x = m x"
  shows "track_move (r ! lst) k lst (m', ok) = (m'(a ! k := lst), ok)"
    and "tracks (m'(a ! k := lst)) r"
proof -
  note s = pop_setup [OF d t l k]
  have kl: "k < length a" using k l by simp
  have rl: "r ! lst = a ! k" using fr l by simp
  have "m' (a ! k) = m (a ! k)" using keep s(4) by simp
  then have mk: "m' (a ! k) = k" using t kl by (simp add: tracks_def)
  show "track_move (r ! lst) k lst (m', ok) = (m'(a ! k := lst), ok)"
    using rl mk by simp
  have dr: "distinct r" using ms d by (rule distinct_mset_eq)
  show "tracks (m'(a ! k := lst)) r"
    unfolding tracks_def
  proof (intro allI impI)
    fix i assume i: "i < length r"
    consider "i < lst" | "i = lst" | "lst < i" by linarith
    then show "(m'(a ! k := lst)) (r ! i) = i"
    proof cases
      case 1
      then have "r ! i \<noteq> r ! lst" using dr i l len by (simp add: nth_eq_iff_index_eq)
      then show ?thesis using rl tr 1 by simp
    next
      case 2
      then show ?thesis using rl by simp
    next
      case 3
      then have ri: "r ! i = a ! i" using fr i len by simp
      have "a ! i \<noteq> a ! k" using d i len kl 3 k by (simp add: nth_eq_iff_index_eq)
      moreover have "m' (a ! i) = m (a ! i)" using keep s(5) 3 i len by simp
      ultimately show ?thesis using ri t i len by (simp add: tracks_def)
    qed
  qed
qed

lemma pop_heap_pos_cb_tracks:
  assumes d: "distinct a" and t: "tracks m a" and l: "lst < length a" and k: "k < lst"
  shows "\<exists>m'. pop_heap_pos_cb lt track_move a (m, ok) lst k = (pop_heap_pos lt a lst k, (m', ok))
          \<and> track_move (pop_heap_pos lt a lst k ! lst) k lst (m', ok) = (m'(a ! k := lst), ok)
          \<and> tracks (m'(a ! k := lst)) (pop_heap_pos lt a lst k)
          \<and> mset (pop_heap_pos lt a lst k) = mset a"
proof -
  define v where "v = a ! lst"
  define b where "b = a[lst := a ! k]"
  note s = pop_setup [OF d t l k, folded b_def v_def]
  have lb: "length b = length a" by (simp add: b_def)
  have kl: "k < length b" using k l lb by simp
  have msb: "mset (b[k := v]) = mset a" using s(6) .
  show ?thesis
  proof (cases "0 < k \<and> lt (b ! ((k - 1) div 2)) v")
    case True
    define r where "r = up_heap lt b k v"
    have e1: "pop_heap_pos_cb lt track_move a (m, ok) lst k = up_heap_cb lt track_move b (m, ok) k v lst"
      using True by (simp add: pop_heap_pos_cb_def Let_def b_def v_def)
    have e2: "pop_heap_pos lt a lst k = r"
      using True by (simp add: pop_heap_pos_def Let_def b_def v_def r_def)
    have "\<exists>m'. up_heap_cb lt track_move b (m, ok) k v lst = (up_heap lt b k v, (m', ok))
          \<and> (\<forall>i<lst. m' (up_heap lt b k v ! i) = i)
          \<and> (\<forall>x. x \<notin> set (take lst (b[k := v])) \<longrightarrow> m' x = m x)"
      using k l lb s(1,2,3) by (intro up_heap_cb_tracks) simp_all
    then obtain m' where
      r: "up_heap_cb lt track_move b (m, ok) k v lst = (r, (m', ok))"
      and tr: "\<forall>i<lst. m' (r ! i) = i"
      and keep: "\<forall>x. x \<notin> set (take lst (b[k := v])) \<longrightarrow> m' x = m x"
      unfolding r_def by blast
    have ms: "mset r = mset a" unfolding r_def using kl msb by (simp add: mset_up_heap)
    have lr: "length r = length a" by (simp add: r_def lb)
    have fr: "\<forall>i. lst \<le> i \<and> i < length a \<longrightarrow> r ! i = b ! i"
      unfolding r_def using k by (simp add: up_heap_frame)
    note fin = pop_finish [OF d t l k lr ms fr [unfolded b_def] tr keep [unfolded b_def v_def]]
    show ?thesis unfolding e1 e2 using r fin ms by (intro exI [of _ m']) simp
  next
    case False
    define r where "r = down_heap lt b lst k v"
    have e1: "pop_heap_pos_cb lt track_move a (m, ok) lst k = down_heap_cb lt track_move b (m, ok) lst k v lst"
      using False by (auto simp add: pop_heap_pos_cb_def Let_def b_def v_def)
    have e2: "pop_heap_pos lt a lst k = r"
      using False by (auto simp add: pop_heap_pos_def Let_def b_def v_def r_def)
    have "\<exists>m'. down_heap_cb lt track_move b (m, ok) lst k v lst = (down_heap lt b lst k v, (m', ok))
          \<and> (\<forall>i<lst. m' (down_heap lt b lst k v ! i) = i)
          \<and> (\<forall>x. x \<notin> set (take lst (b[k := v])) \<longrightarrow> m' x = m x)"
      using k l lb s(1,2,3) by (intro down_heap_cb_tracks) simp_all
    then obtain m' where
      r: "down_heap_cb lt track_move b (m, ok) lst k v lst = (r, (m', ok))"
      and tr: "\<forall>i<lst. m' (r ! i) = i"
      and keep: "\<forall>x. x \<notin> set (take lst (b[k := v])) \<longrightarrow> m' x = m x"
      unfolding r_def by blast
    have ms: "mset r = mset a" unfolding r_def using k l lb msb by (simp add: mset_down_heap)
    have lr: "length r = length a" by (simp add: r_def lb)
    have fr: "\<forall>i. lst \<le> i \<and> i < length a \<longrightarrow> r ! i = b ! i"
      unfolding r_def using k by (simp add: down_heap_frame)
    note fin = pop_finish [OF d t l k lr ms fr [unfolded b_def] tr keep [unfolded b_def v_def]]
    show ?thesis unfolding e1 e2 using r fin ms by (intro exI [of _ m']) simp
  qed
qed

lemma pop_heap_inner_eq: "pop_heap_inner lt a lst = pop_heap_pos lt a lst 0"
  by (simp add: pop_heap_inner_def pop_heap_pos_def Let_def)

lemma pop_heap_inner_cb_eq:
  "pop_heap_inner_cb lt moved a s lst = pop_heap_pos_cb lt moved a s lst 0"
  by (simp add: pop_heap_inner_cb_def pop_heap_pos_cb_def Let_def)


lemma track_move_same:
  "m v = i \<Longrightarrow> track_move v i i (m, ok) = (m, ok)"
  by (simp add: fun_upd_idem)

lemma pop_heap_cb_many:
  "1 < length a \<Longrightarrow>
   pop_heap_cb lt moved a s
     = (case pop_heap_pos_cb lt moved a s (length a - 1) 0 of
          (a', s') \<Rightarrow> Inr (a', moved (a' ! (length a - 1)) 0 (length a - 1) s'))"
  by (auto simp: pop_heap_cb_def pop_heap_inner_cb_eq split: prod.splits)

lemma pop_heap_cb_single:
  "length a = 1 \<Longrightarrow> pop_heap_cb lt moved a s = Inr (a, moved (a ! 0) 0 0 s)"
  by (simp add: pop_heap_cb_def)

lemma pop_heap_at_cb_inner:
  "k + 1 < length a \<Longrightarrow>
   pop_heap_at_cb lt moved a s k
     = (case pop_heap_pos_cb lt moved a s (length a - 1) k of
          (a', s') \<Rightarrow> Inr (a', moved (a' ! (length a - 1)) k (length a - 1) s'))"
  by (auto simp: pop_heap_at_cb_def split: prod.splits)

lemma pop_heap_at_cb_final:
  assumes "k + 1 = length a"
  shows "pop_heap_at_cb lt moved a s k = Inr (a, moved (a ! k) k k s)"
proof -
  have "length a - 1 = k" "length a \<noteq> 0" "\<not> int (length a) - int k > 1"
    using assms by auto
  then show ?thesis unfolding pop_heap_at_cb_def by simp
qed

lemma pop_heap_cb_tracks:
  assumes d: "distinct a" and t: "tracks m a" and n: "0 < length a"
  shows "\<exists>m'. pop_heap_cb lt track_move a (m, ok) = Inr (pop_heap lt a, (m', ok))
              \<and> tracks m' (pop_heap lt a)"
proof (cases "1 < length a")
  case False
  then have l: "length a = 1" using n by (cases a) simp_all
  have "m (a ! 0) = 0" using t l by (simp add: tracks_def)
  then have "track_move (a ! 0) 0 0 (m, ok) = (m, ok)" by (rule track_move_same)
  then have "pop_heap_cb lt track_move a (m, ok) = Inr (a, (m, ok))"
    by (simp only: pop_heap_cb_single [OF l])
  moreover have "pop_heap lt a = a" using l by (simp add: pop_heap_def)
  ultimately show ?thesis using t by (intro exI [of _ m]) simp
next
  case True
  define lst where "lst = length a - 1"
  have l: "lst < length a" "0 < lst" using True by (simp_all add: lst_def)
  obtain m' where
    r: "pop_heap_pos_cb lt track_move a (m, ok) lst 0 = (pop_heap_pos lt a lst 0, (m', ok))"
    and f: "track_move (pop_heap_pos lt a lst 0 ! lst) 0 lst (m', ok) = (m'(a ! 0 := lst), ok)"
    and tr: "tracks (m'(a ! 0 := lst)) (pop_heap_pos lt a lst 0)"
    using pop_heap_pos_cb_tracks [OF d t l] by blast
  have "pop_heap_cb lt track_move a (m, ok)
          = Inr (pop_heap_pos lt a lst 0, track_move (pop_heap_pos lt a lst 0 ! lst) 0 lst (m', ok))"
    unfolding pop_heap_cb_many [OF True] lst_def [symmetric] r by simp
  then have "pop_heap_cb lt track_move a (m, ok) = Inr (pop_heap_pos lt a lst 0, (m'(a ! 0 := lst), ok))"
    by (simp only: f)
  moreover have "pop_heap lt a = pop_heap_pos lt a lst 0"
    using True by (simp add: pop_heap_def pop_heap_inner_eq lst_def)
  ultimately show ?thesis using tr by (intro exI [of _ "m'(a ! 0 := lst)"]) simp
qed

lemma pop_heap_at_cb_tracks:
  assumes d: "distinct a" and t: "tracks m a" and k: "k < length a"
  shows "\<exists>m'. pop_heap_at_cb lt track_move a (m, ok) k = Inr (pop_heap_at lt a k, (m', ok))
              \<and> tracks m' (pop_heap_at lt a k)"
proof (cases "k + 1 < length a")
  case False
  then have l: "k + 1 = length a" using k by simp
  have "m (a ! k) = k" using t k by (simp add: tracks_def)
  then have "track_move (a ! k) k k (m, ok) = (m, ok)" by (rule track_move_same)
  then have "pop_heap_at_cb lt track_move a (m, ok) k = Inr (a, (m, ok))"
    by (simp only: pop_heap_at_cb_final [OF l])
  moreover have "pop_heap_at lt a k = a" using l by (simp add: pop_heap_at_def)
  ultimately show ?thesis using t by (intro exI [of _ m]) simp
next
  case True
  define lst where "lst = length a - 1"
  have l: "lst < length a" "k < lst" using True by (simp_all add: lst_def)
  obtain m' where
    r: "pop_heap_pos_cb lt track_move a (m, ok) lst k = (pop_heap_pos lt a lst k, (m', ok))"
    and f: "track_move (pop_heap_pos lt a lst k ! lst) k lst (m', ok) = (m'(a ! k := lst), ok)"
    and tr: "tracks (m'(a ! k := lst)) (pop_heap_pos lt a lst k)"
    using pop_heap_pos_cb_tracks [OF d t l] by blast
  have "pop_heap_at_cb lt track_move a (m, ok) k
          = Inr (pop_heap_pos lt a lst k, track_move (pop_heap_pos lt a lst k ! lst) k lst (m', ok))"
    unfolding pop_heap_at_cb_inner [OF True] lst_def [symmetric] r by simp
  then have "pop_heap_at_cb lt track_move a (m, ok) k
               = Inr (pop_heap_pos lt a lst k, (m'(a ! k := lst), ok))"
    by (simp only: f)
  moreover have "pop_heap_at lt a k = pop_heap_pos lt a lst k"
    using True by (simp add: pop_heap_at_def lst_def)
  ultimately show ?thesis using tr by (intro exI [of _ "m'(a ! k := lst)"]) simp
qed

lemma sort_heap_loop_stop: "\<not> 1 < lst \<Longrightarrow> sort_heap_loop lt a lst = a"
  by (subst sort_heap_loop.simps) simp

lemma sort_heap_loop_step:
  "1 < lst \<Longrightarrow> sort_heap_loop lt a lst = sort_heap_loop lt (pop_heap_inner lt a (lst - 1)) (lst - 1)"
  by (subst sort_heap_loop.simps) (simp add: Let_def)

lemma sort_heap_cb_loop_stop: "\<not> 1 < lst \<Longrightarrow> sort_heap_cb_loop lt moved a s lst = (a, s)"
  by (subst sort_heap_cb_loop.simps) simp

lemma sort_heap_cb_loop_step:
  "1 < lst \<Longrightarrow> sort_heap_cb_loop lt moved a s lst
     = (case pop_heap_inner_cb lt moved a s (lst - 1) of
          (a', s') \<Rightarrow> sort_heap_cb_loop lt moved a' (moved (a' ! (lst - 1)) 0 (lst - 1) s') (lst - 1))"
  by (subst sort_heap_cb_loop.simps) (simp add: Let_def)

lemma sort_heap_cb_loop_tracks:
  "distinct a \<Longrightarrow> tracks m a \<Longrightarrow> lst \<le> length a \<Longrightarrow>
   \<exists>m'. sort_heap_cb_loop lt track_move a (m, ok) lst = (sort_heap_loop lt a lst, (m', ok))
        \<and> tracks m' (sort_heap_loop lt a lst)"
proof (induction lst arbitrary: a m rule: less_induct)
  case (less lst)
  show ?case
  proof (cases "1 < lst")
    case False
    then show ?thesis using less.prems
      by (intro exI [of _ m]) (simp add: sort_heap_cb_loop_stop sort_heap_loop_stop)
  next
    case True
    define l1 where "l1 = lst - 1"
    define r where "r = pop_heap_pos lt a l1 0"
    have l: "l1 < length a" "0 < l1" "l1 < lst" using True less.prems by (simp_all add: l1_def)
    obtain m1 where
      p: "pop_heap_pos_cb lt track_move a (m, ok) l1 0 = (r, (m1, ok))"
      and f: "track_move (r ! l1) 0 l1 (m1, ok) = (m1(a ! 0 := l1), ok)"
      and tr: "tracks (m1(a ! 0 := l1)) r"
      and ms: "mset r = mset a"
      using pop_heap_pos_cb_tracks [OF less.prems(1,2) l(1,2)] unfolding r_def by blast
    have dr: "distinct r" using ms less.prems(1) by (rule distinct_mset_eq)
    have lr: "length r = length a" using ms by (metis size_mset)
    have "\<exists>m'. sort_heap_cb_loop lt track_move r (m1(a ! 0 := l1), ok) l1
                 = (sort_heap_loop lt r l1, (m', ok))
              \<and> tracks m' (sort_heap_loop lt r l1)"
      using l lr by (intro less.IH [OF l(3) dr tr]) simp
    then obtain m' where
      s: "sort_heap_cb_loop lt track_move r (m1(a ! 0 := l1), ok) l1 = (sort_heap_loop lt r l1, (m', ok))"
      and ts: "tracks m' (sort_heap_loop lt r l1)"
      by blast
    have "sort_heap_cb_loop lt track_move a (m, ok) lst
            = sort_heap_cb_loop lt track_move r (track_move (r ! l1) 0 l1 (m1, ok)) l1"
      unfolding sort_heap_cb_loop_step [OF True] pop_heap_inner_cb_eq l1_def [symmetric] p
      by simp
    then have "sort_heap_cb_loop lt track_move a (m, ok) lst = (sort_heap_loop lt r l1, (m', ok))"
      by (simp only: f s)
    moreover have "sort_heap_loop lt a lst = sort_heap_loop lt r l1"
      using True by (simp add: sort_heap_loop_step pop_heap_inner_eq l1_def r_def)
    ultimately show ?thesis using ts by (intro exI [of _ m']) simp
  qed
qed

lemma sdiv_2_nat: "int x sdiv 2 = int (x div 2)"
  by (simp add: signed_divide_int_def sgn_if zdiv_int)

lemma push_cond:
  assumes n: "0 < length a"
  shows "(int (length a) - 1 > 0 \<and> lt (a ! nat ((int (length a) - 1 - 1) sdiv 2)) (a ! (length a - 1)))
     = (0 < length a - 1 \<and> lt (a ! ((length a - 1 - 1) div 2)) (a ! (length a - 1)))"
proof (cases "0 < length a - 1")
  case False
  then show ?thesis by simp
next
  case True
  then have "int (length a) - 1 - 1 = int (length a - 1 - 1)" by simp
  then have "nat ((int (length a) - 1 - 1) sdiv 2) = (length a - 1 - 1) div 2"
    by (simp only: sdiv_2_nat nat_int)
  then show ?thesis using True by simp
qed

lemma push_heap_cb_unfold:
  assumes n: "0 < length a"
  shows "push_heap_cb lt moved a s
     = (if 0 < length a - 1 \<and> lt (a ! ((length a - 1 - 1) div 2)) (a ! (length a - 1))
        then Inr (up_heap_cb lt moved a s (length a - 1) (a ! (length a - 1)) (length a - 1))
        else Inr (a, moved (a ! (length a - 1)) (length a - 1) (length a - 1) s))"
proof -
  have h: "nat (int (length a) - 1) = length a - 1" "\<not> int (length a) - 1 < 0"
    using n by simp_all
  show ?thesis unfolding push_heap_cb_def Let_def push_cond [OF n] h using n by simp
qed

lemma push_heap_unfold:
  assumes n: "0 < length a"
  shows "push_heap lt a
     = (if 0 < length a - 1 \<and> lt (a ! ((length a - 1 - 1) div 2)) (a ! (length a - 1))
        then up_heap lt a (length a - 1) (a ! (length a - 1)) else a)"
proof -
  have h: "nat (int (length a) - 1) = length a - 1" using n by simp
  show ?thesis unfolding push_heap_def Let_def push_cond [OF n] h by simp
qed

lemma push_heap_cb_tracks:
  assumes d: "distinct a" and t: "tracks m a" and n: "0 < length a"
  shows "\<exists>m'. push_heap_cb lt track_move a (m, ok) = Inr (push_heap lt a, (m', ok))
              \<and> tracks m' (push_heap lt a)"
proof -
  define h where "h = length a - 1"
  have h: "h < length a" using n by (simp add: h_def)
  have mh: "m (a ! h) = h" using t h by (simp add: tracks_def)
  note u1 = push_heap_cb_unfold [OF n, of lt track_move "(m, ok)", folded h_def]
  note u2 = push_heap_unfold [OF n, of lt, folded h_def]
  show ?thesis
  proof (cases "0 < h \<and> lt (a ! ((h - 1) div 2)) (a ! h)")
    case False
    have same: "track_move (a ! h) h h (m, ok) = (m, ok)" using mh by (rule track_move_same)
    have "push_heap_cb lt track_move a (m, ok) = Inr (a, (m, ok))"
      unfolding u1 if_not_P [OF False] same by simp
    moreover have "push_heap lt a = a" unfolding u2 if_not_P [OF False] by simp
    ultimately show ?thesis using t by (intro exI [of _ m]) simp
  next
    case True
    have e1: "push_heap_cb lt track_move a (m, ok)
                = Inr (up_heap_cb lt track_move a (m, ok) h (a ! h) h)"
      unfolding u1 if_P [OF True] by simp
    have e2: "push_heap lt a = up_heap lt a h (a ! h)" unfolding u2 if_P [OF True] by simp
    have "\<exists>m'. up_heap_cb lt track_move a (m, ok) h (a ! h) h = (up_heap lt a h (a ! h), (m', ok))
          \<and> (\<forall>i<length a. m' (up_heap lt a h (a ! h) ! i) = i)
          \<and> (\<forall>x. x \<notin> set (take (length a) (a[h := a ! h])) \<longrightarrow> m' x = m x)"
      using d t h mh by (intro up_heap_cb_tracks) (simp_all add: tracks_def)
    then obtain m' where
      r: "up_heap_cb lt track_move a (m, ok) h (a ! h) h = (up_heap lt a h (a ! h), (m', ok))"
      and tr: "\<forall>i<length a. m' (up_heap lt a h (a ! h) ! i) = i"
      by blast
    have "tracks m' (up_heap lt a h (a ! h))" using tr by (intro tracksI [of _ "length a"]) simp_all
    then show ?thesis unfolding e1 e2 using r by (intro exI [of _ m']) simp
  qed
qed

lemma update_heap_cb_tracks:
  assumes d: "distinct a" and t: "tracks m a" and k: "k < length a"
  shows "\<exists>m' r. update_heap lt a k = Inr r
              \<and> update_heap_cb lt track_move a (m, ok) k = Inr (r, (m', ok))
              \<and> tracks m' r"
proof -
  have mk: "m (a ! k) = k" using t k by (simp add: tracks_def)
  have pre: "distinct (a[k := a ! k])" "\<forall>i<length a. i \<noteq> k \<longrightarrow> m (a ! i) = i"
    using d t by (simp_all add: tracks_def)
  show ?thesis
  proof (cases "0 < k \<and> lt (a ! ((k - 1) div 2)) (a ! k)")
    case True
    have "\<exists>m'. up_heap_cb lt track_move a (m, ok) k (a ! k) k = (up_heap lt a k (a ! k), (m', ok))
          \<and> (\<forall>i<length a. m' (up_heap lt a k (a ! k) ! i) = i)
          \<and> (\<forall>x. x \<notin> set (take (length a) (a[k := a ! k])) \<longrightarrow> m' x = m x)"
      using k pre mk by (intro up_heap_cb_tracks) simp_all
    then obtain m' where
      r: "up_heap_cb lt track_move a (m, ok) k (a ! k) k = (up_heap lt a k (a ! k), (m', ok))"
      and tr: "\<forall>i<length a. m' (up_heap lt a k (a ! k) ! i) = i"
      by blast
    have "tracks m' (up_heap lt a k (a ! k))" using tr by (intro tracksI [of _ "length a"]) simp_all
    then show ?thesis using True k r
      by (intro exI [of _ m'] exI [of _ "up_heap lt a k (a ! k)"])
         (simp add: update_heap_def update_heap_cb_def Let_def)
  next
    case False
    have "\<exists>m'. down_heap_cb lt track_move a (m, ok) (length a) k (a ! k) k
                 = (down_heap lt a (length a) k (a ! k), (m', ok))
          \<and> (\<forall>i<length a. m' (down_heap lt a (length a) k (a ! k) ! i) = i)
          \<and> (\<forall>x. x \<notin> set (take (length a) (a[k := a ! k])) \<longrightarrow> m' x = m x)"
      using k pre mk by (intro down_heap_cb_tracks) simp_all
    then obtain m' where
      r: "down_heap_cb lt track_move a (m, ok) (length a) k (a ! k) k
            = (down_heap lt a (length a) k (a ! k), (m', ok))"
      and tr: "\<forall>i<length a. m' (down_heap lt a (length a) k (a ! k) ! i) = i"
      by blast
    have "tracks m' (down_heap lt a (length a) k (a ! k))"
      using tr by (intro tracksI [of _ "length a"]) simp_all
    then show ?thesis using False k r
      by (intro exI [of _ m'] exI [of _ "down_heap lt a (length a) k (a ! k)"])
         (auto simp add: update_heap_def update_heap_cb_def Let_def)
  qed
qed

section \<open>The stream of calls, call by call\<close>

subsection \<open>The calls made in the middle of a step\<close>

lemma exact_stream_iff:
  "exact_stream b r h calls \<longleftrightarrow>
     mset r = mset b \<and> distinct calls
     \<and> (\<forall>v f t. (v, f, t) \<in> set calls \<longleftrightarrow>
           f < length b \<and> t < length b \<and> v = b ! f \<and> r ! t = b ! f \<and> (f \<noteq> t \<or> f = h))"
  unfolding exact_stream_def by (rule arg_cong [where f = "\<lambda>P. _ \<and> _ \<and> P"]) (auto simp: set_eq_iff)

lemma pending_length: "pending_stream b S x calls \<Longrightarrow> length x = length b"
  unfolding pending_stream_def by (metis size_mset)

lemma pending_distinct: "pending_stream b S x calls \<Longrightarrow> distinct b \<Longrightarrow> distinct x"
  unfolding pending_stream_def by (metis mset_eq_imp_distinct_iff)

lemma pending_start:
  assumes d: "distinct b" and q: "q < length b"
  shows "pending_stream b {q} b []"
  unfolding pending_stream_def using d by (auto simp: nth_eq_iff_index_eq)

lemma pending_start_pop:
  assumes d: "distinct b" and p: "pos < lst" "lst < length b"
  shows "pending_stream b {lst, pos} (b[lst := b ! pos, pos := b ! lst]) []"
proof -
  have "mset (b[lst := b ! pos, pos := b ! lst]) = mset b"
    using p by (simp add: mset_swap)
  moreover have "\<not> (f < length b \<and> t < length b \<and> b[lst := b ! pos, pos := b ! lst] ! t = b ! f
                  \<and> f \<noteq> t \<and> f \<notin> {lst, pos})" for f t
    using d p by (auto simp: nth_list_update nth_eq_iff_index_eq split: if_splits)
  ultimately show ?thesis unfolding pending_stream_def by simp
qed

lemma pending_step:
  assumes d: "distinct b" and P: "pending_stream b S x calls"
    and h: "h < length b" and c: "c < length b" "h \<noteq> c" "c \<notin> S" "x ! c = b ! c"
    and q: "q \<in> S" "q < length b" "x ! h = b ! q"
  shows "pending_stream b S (x[h := b ! c, c := b ! q]) (calls @ [(b ! c, c, h)])"
proof -
  have lx: "length x = length b" using P by (rule pending_length)
  have sw: "mset (x[h := x ! c, c := x ! h]) = mset x"
    using h c(1) lx by (intro mset_swap) simp_all
  have mx: "mset x = mset b" using P by (simp add: pending_stream_def)
  have m: "mset (x[h := b ! c, c := b ! q]) = mset b"
    using sw unfolding c(4) q(3) mx .
  have nin: "(b ! c, c, h) \<notin> set calls"
    using P q h d by (auto simp: pending_stream_def nth_eq_iff_index_eq)
  have dc: "distinct (calls @ [(b ! c, c, h)])" using P nin by (simp add: pending_stream_def)
  have "(v, f, t) \<in> set (calls @ [(b ! c, c, h)]) \<longleftrightarrow>
           f < length b \<and> t < length b \<and> v = b ! f
           \<and> x[h := b ! c, c := b ! q] ! t = b ! f \<and> f \<noteq> t \<and> f \<notin> S" for v f t
  proof (cases "t = h")
    case True
    then show ?thesis using P h c q d lx
      by (auto simp: pending_stream_def nth_list_update nth_eq_iff_index_eq)
  next
    case False
    show ?thesis
    proof (cases "t = c")
      case True
      then show ?thesis using P h c q d lx
        by (auto simp: pending_stream_def nth_list_update nth_eq_iff_index_eq)
    next
      case tc: False
      then show ?thesis using False P h c q d lx
        by (auto simp: pending_stream_def nth_list_update nth_eq_iff_index_eq)
    qed
  qed
  then show ?thesis unfolding pending_stream_def using m dc by blast
qed

lemma pending_finish:
  assumes d: "distinct b" and P: "pending_stream b {q} r calls"
    and q: "q < length b" and f: "hf < length b" "r ! hf = b ! q"
  shows "exact_stream b r q (calls @ [(b ! q, q, hf)])"
proof -
  have lr: "length r = length b" using P by (rule pending_length)
  have dr: "distinct r" using P d by (rule pending_distinct)
  have nin: "(b ! q, q, hf) \<notin> set calls" using P by (auto simp: pending_stream_def)
  have "(v, g, t) \<in> set (calls @ [(b ! q, q, hf)]) \<longleftrightarrow>
           g < length b \<and> t < length b \<and> v = b ! g \<and> r ! t = b ! g \<and> (g \<noteq> t \<or> g = q)" for v g t
  proof (cases "g = q")
    case True
    have "r ! t = b ! q \<longleftrightarrow> t = hf" if "t < length b"
      using that f dr lr by (metis nth_eq_iff_index_eq)
    then show ?thesis using True P q f by (auto simp: pending_stream_def)
  next
    case False
    then show ?thesis using P q f d by (auto simp: pending_stream_def nth_eq_iff_index_eq)
  qed
  then show ?thesis unfolding exact_stream_iff using P nin by (simp add: pending_stream_def)
qed

lemma pending_finish_pop:
  assumes d: "distinct b" and P: "pending_stream b {lst, pos} r calls"
    and p: "pos < lst" "lst < length b" and f: "hf < lst" "r ! hf = b ! lst" "r ! lst = b ! pos"
  shows "exact_stream b r pos (calls @ [(b ! lst, lst, hf), (b ! pos, pos, lst)])"
proof -
  have lr: "length r = length b" using P by (rule pending_length)
  have dr: "distinct r" using P d by (rule pending_distinct)
  have nin: "(b ! lst, lst, hf) \<notin> set calls" "(b ! pos, pos, lst) \<notin> set calls"
    using P by (auto simp: pending_stream_def)
  have ne: "(b ! lst, lst, hf) \<noteq> (b ! pos, pos, lst)" using p by simp
  have "(v, g, t) \<in> set (calls @ [(b ! lst, lst, hf), (b ! pos, pos, lst)]) \<longleftrightarrow>
           g < length b \<and> t < length b \<and> v = b ! g \<and> r ! t = b ! g \<and> (g \<noteq> t \<or> g = pos)" for v g t
  proof (cases "g = lst")
    case True
    have "r ! t = b ! lst \<longleftrightarrow> t = hf" if "t < length b"
      using that f p dr lr by (metis nth_eq_iff_index_eq less_trans)
    then show ?thesis using True P p f by (auto simp: pending_stream_def)
  next
    case False
    show ?thesis
    proof (cases "g = pos")
      case True
      have "r ! t = b ! pos \<longleftrightarrow> t = lst" if "t < length b"
        using that f p dr lr by (metis nth_eq_iff_index_eq)
      then show ?thesis using True P p f by (auto simp: pending_stream_def)
    next
      case gp: False
      then show ?thesis using False P p f d
        by (auto simp: pending_stream_def nth_eq_iff_index_eq)
    qed
  qed
  then show ?thesis unfolding exact_stream_iff using P nin ne by (simp add: pending_stream_def)
qed

subsection \<open>One sift, upwards or downwards\<close>

lemma fst_up_heap_cb: "fst (up_heap_cb lt moved a s h p ppos) = up_heap lt a h p"
proof (induction h arbitrary: a s rule: less_induct)
  case (less h)
  show ?case
  proof (cases "0 < h \<and> lt (a ! ((h - 1) div 2)) p")
    case False
    then show ?thesis by (simp add: up_heap_cb_stop_eq up_heap_stop_eq)
  next
    case True
    then have "(h - 1) div 2 < h" by (intro parent_less) simp
    then show ?thesis using True
      by (simp add: up_heap_cb_ascend_eq up_heap_ascend_eq less.IH)
  qed
qed

lemma down_heap_cb_pending:
  assumes d: "distinct b" and q: "q \<in> S" "q < length b"
  shows "pending_stream b S (c[h := b ! q]) calls \<Longrightarrow> h < len \<Longrightarrow> len \<le> length b
     \<Longrightarrow> length c = length b \<Longrightarrow> \<forall>i. h < i \<and> i < len \<longrightarrow> c ! i = b ! i \<and> i \<notin> S
     \<Longrightarrow> \<exists>r calls' hf. down_heap_cb lt record_move c (pre @ calls) len h (b ! q) ppos
                          = (r, pre @ calls' @ [(b ! q, ppos, hf)])
          \<and> pending_stream b S r calls' \<and> hf < len \<and> r ! hf = b ! q
          \<and> (\<forall>i. len \<le> i \<longrightarrow> r ! i = c ! i)"
proof (induction "len - h" arbitrary: c h calls rule: less_induct)
  case less
  have hc: "h < length c" using less.prems by simp
  have stop: ?case
    if e: "down_heap_cb lt record_move c (pre @ calls) len h (b ! q) ppos
            = (c[h := b ! q], record_move (c[h := b ! q] ! h) ppos h (pre @ calls))"
  proof -
    have "down_heap_cb lt record_move c (pre @ calls) len h (b ! q) ppos
            = (c[h := b ! q], pre @ calls @ [(b ! q, ppos, h)])"
      using e hc by (simp add: record_move_def)
    then show ?thesis using less.prems hc
      by (intro exI [of _ "c[h := b ! q]"] exI [of _ calls] exI [of _ h]) simp
  qed
  show ?case
  proof (cases "2 * h + 1 < len")
    case False
    then show ?thesis by (intro stop down_heap_cb_leaf)
  next
    case True
    define ch where "ch = larger_child lt c len h"
    have ch: "h < ch" "ch < len" using True by (simp_all add: ch_def larger_child_def)
    show ?thesis
    proof (cases "lt (c ! ch) (b ! q)")
      case lt: True
      show ?thesis using True lt unfolding ch_def by (intro stop down_heap_cb_stop_eq)
    next
      case nlt: False
      define c1 where "c1 = c[h := c ! ch]"
      have cch: "c ! ch = b ! ch" "ch \<notin> S" using less.prems(5) ch by simp_all
      have eq: "down_heap_cb lt record_move c (pre @ calls) len h (b ! q) ppos
              = down_heap_cb lt record_move c1 (pre @ (calls @ [(b ! ch, ch, h)])) len ch (b ! q) ppos"
        using True nlt hc cch
        by (simp add: down_heap_cb_descend_eq [of h len lt c] record_move_def ch_def [symmetric] c1_def)
      have x: "c1[ch := b ! q] = (c[h := b ! q])[h := b ! ch, ch := b ! q]"
        by (simp add: c1_def cch)
      have P1: "pending_stream b S (c1[ch := b ! q]) (calls @ [(b ! ch, ch, h)])"
        unfolding x
        using less.prems ch cch hc q
        by (intro pending_step [OF d less.prems(1)]) simp_all
      have "\<exists>r calls' hf. down_heap_cb lt record_move c1 (pre @ (calls @ [(b ! ch, ch, h)])) len ch (b ! q) ppos
                          = (r, pre @ calls' @ [(b ! q, ppos, hf)])
          \<and> pending_stream b S r calls' \<and> hf < len \<and> r ! hf = b ! q
          \<and> (\<forall>i. len \<le> i \<longrightarrow> r ! i = c1 ! i)"
        using ch less.prems P1 by (intro less.hyps) (simp_all add: c1_def)
      then obtain r calls' hf where
        r: "down_heap_cb lt record_move c1 (pre @ (calls @ [(b ! ch, ch, h)])) len ch (b ! q) ppos
                          = (r, pre @ calls' @ [(b ! q, ppos, hf)])"
        "pending_stream b S r calls'" "hf < len" "r ! hf = b ! q"
        "\<forall>i. len \<le> i \<longrightarrow> r ! i = c1 ! i"
        by blast
      have "\<forall>i. len \<le> i \<longrightarrow> r ! i = c ! i" using r(5) less.prems(2) by (simp add: c1_def)
      then show ?thesis using r eq by (intro exI [of _ r] exI [of _ calls'] exI [of _ hf]) simp
    qed
  qed
qed

lemma up_heap_cb_pending:
  assumes d: "distinct b" and q: "q \<in> S" "q < length b"
  shows "pending_stream b S (c[h := b ! q]) calls \<Longrightarrow> h < length b
     \<Longrightarrow> length c = length b \<Longrightarrow> \<forall>i<h. c ! i = b ! i \<and> i \<notin> S
     \<Longrightarrow> \<exists>r calls' hf. up_heap_cb lt record_move c (pre @ calls) h (b ! q) ppos
                          = (r, pre @ calls' @ [(b ! q, ppos, hf)])
          \<and> pending_stream b S r calls' \<and> hf \<le> h \<and> r ! hf = b ! q
          \<and> (\<forall>i. h < i \<longrightarrow> r ! i = c ! i)"
proof (induction h arbitrary: c calls rule: less_induct)
  case (less h)
  have hc: "h < length c" using less.prems by simp
  show ?case
  proof (cases "0 < h \<and> lt (c ! ((h - 1) div 2)) (b ! q)")
    case False
    have "up_heap_cb lt record_move c (pre @ calls) h (b ! q) ppos
            = (c[h := b ! q], pre @ calls @ [(b ! q, ppos, h)])"
      using False hc by (simp add: up_heap_cb_stop_eq record_move_def)
    then show ?thesis using less.prems hc
      by (intro exI [of _ "c[h := b ! q]"] exI [of _ calls] exI [of _ h]) simp
  next
    case True
    define g where "g = (h - 1) div 2"
    have g: "g < h" using True unfolding g_def by (intro parent_less) simp
    define c1 where "c1 = c[h := c ! g]"
    have cg: "c ! g = b ! g" "g \<notin> S" using less.prems(4) g by simp_all
    from True have t1: "0 < h" and t2: "lt (c ! ((h - 1) div 2)) (b ! q)" by blast+
    note asc = up_heap_cb_ascend_eq [of h lt c "b ! q" record_move "pre @ calls" ppos, OF t1 t2, folded g_def]
    have eq: "up_heap_cb lt record_move c (pre @ calls) h (b ! q) ppos
              = up_heap_cb lt record_move c1 (pre @ (calls @ [(b ! g, g, h)])) g (b ! q) ppos"
      unfolding asc using hc cg by (simp add: record_move_def c1_def)
    have x: "c1[g := b ! q] = (c[h := b ! q])[h := b ! g, g := b ! q]"
      by (simp add: c1_def cg)
    have P1: "pending_stream b S (c1[g := b ! q]) (calls @ [(b ! g, g, h)])"
      unfolding x
      using less.prems g cg hc q
      by (intro pending_step [OF d less.prems(1)]) simp_all
    have "\<exists>r calls' hf. up_heap_cb lt record_move c1 (pre @ (calls @ [(b ! g, g, h)])) g (b ! q) ppos
                          = (r, pre @ calls' @ [(b ! q, ppos, hf)])
          \<and> pending_stream b S r calls' \<and> hf \<le> g \<and> r ! hf = b ! q
          \<and> (\<forall>i. g < i \<longrightarrow> r ! i = c1 ! i)"
      using g less.prems P1 by (intro less.IH) (simp_all add: c1_def)
    then obtain r calls' hf where
      r: "up_heap_cb lt record_move c1 (pre @ (calls @ [(b ! g, g, h)])) g (b ! q) ppos
                          = (r, pre @ calls' @ [(b ! q, ppos, hf)])"
      "pending_stream b S r calls'" "hf \<le> g" "r ! hf = b ! q"
      "\<forall>i. g < i \<longrightarrow> r ! i = c1 ! i"
      by blast
    have "\<forall>i. h < i \<longrightarrow> r ! i = c ! i" using r(5) g by (simp add: c1_def)
    moreover have "hf \<le> h" using r(3) g by simp
    ultimately show ?thesis using r eq
      by (intro exI [of _ r] exI [of _ calls'] exI [of _ hf]) simp
  qed
qed

text \<open>One sift from a slot of the sequence itself.\<close>

lemma down_heap_cb_exact:
  assumes d: "distinct b" and h: "h < length b"
  shows "\<exists>seg. down_heap_cb lt record_move b pre (length b) h (b ! h) h
                 = (down_heap lt b (length b) h (b ! h), pre @ seg)
          \<and> exact_stream b (down_heap lt b (length b) h (b ! h)) h seg"
proof -
  have P: "pending_stream b {h} (b[h := b ! h]) []" using pending_start [OF d h] by simp
  have "\<exists>r calls' hf. down_heap_cb lt record_move b (pre @ []) (length b) h (b ! h) h
                          = (r, pre @ calls' @ [(b ! h, h, hf)])
          \<and> pending_stream b {h} r calls' \<and> hf < length b \<and> r ! hf = b ! h
          \<and> (\<forall>i. length b \<le> i \<longrightarrow> r ! i = b ! i)"
    using h by (intro down_heap_cb_pending [OF d _ h P]) simp_all
  then obtain r calls' hf where
    r: "down_heap_cb lt record_move b pre (length b) h (b ! h) h = (r, pre @ calls' @ [(b ! h, h, hf)])"
      "pending_stream b {h} r calls'" "hf < length b" "r ! hf = b ! h"
    by auto
  have "r = down_heap lt b (length b) h (b ! h)"
    using fst_down_heap_cb [of lt record_move b pre "length b" h "b ! h" h] r(1) by simp
  moreover have "exact_stream b r h (calls' @ [(b ! h, h, hf)])"
    by (rule pending_finish [OF d r(2) h r(3,4)])
  ultimately show ?thesis using r(1) by auto
qed

lemma up_heap_cb_exact:
  assumes d: "distinct b" and h: "h < length b"
  shows "\<exists>seg. up_heap_cb lt record_move b pre h (b ! h) h
                 = (up_heap lt b h (b ! h), pre @ seg)
          \<and> exact_stream b (up_heap lt b h (b ! h)) h seg"
proof -
  have P: "pending_stream b {h} (b[h := b ! h]) []" using pending_start [OF d h] by simp
  have "\<exists>r calls' hf. up_heap_cb lt record_move b (pre @ []) h (b ! h) h
                          = (r, pre @ calls' @ [(b ! h, h, hf)])
          \<and> pending_stream b {h} r calls' \<and> hf \<le> h \<and> r ! hf = b ! h
          \<and> (\<forall>i. h < i \<longrightarrow> r ! i = b ! i)"
    using h by (intro up_heap_cb_pending [OF d _ h P]) simp_all
  then obtain r calls' hf where
    r: "up_heap_cb lt record_move b pre h (b ! h) h = (r, pre @ calls' @ [(b ! h, h, hf)])"
      "pending_stream b {h} r calls'" "hf \<le> h" "r ! hf = b ! h"
    by auto
  have hf: "hf < length b" using r(3) h by simp
  have "r = up_heap lt b h (b ! h)"
    using fst_up_heap_cb [of lt record_move b pre h "b ! h" h] r(1) by simp
  moreover have "exact_stream b r h (calls' @ [(b ! h, h, hf)])"
    by (rule pending_finish [OF d r(2) h hf r(4)])
  ultimately show ?thesis using r(1) by auto
qed

lemma fst_pop_heap_pos_cb:
  "fst (pop_heap_pos_cb lt moved a s lst pos) = pop_heap_pos lt a lst pos"
  by (simp add: pop_heap_pos_cb_def pop_heap_pos_def Let_def fst_up_heap_cb fst_down_heap_cb)

lemma pop_heap_pos_cb_exact:
  assumes d: "distinct b" and p: "pos < lst" "lst < length b"
  shows "\<exists>seg. pop_heap_pos_cb lt record_move b pre lst pos
                 = (pop_heap_pos lt b lst pos, pre @ seg)
          \<and> pop_heap_pos lt b lst pos ! lst = b ! pos
          \<and> exact_stream b (pop_heap_pos lt b lst pos) pos (seg @ [(b ! pos, pos, lst)])"
proof -
  define c where "c = b[lst := b ! pos]"
  have lc: "length c = length b" by (simp add: c_def)
  have P: "pending_stream b {lst, pos} (c[pos := b ! lst]) []"
    unfolding c_def by (rule pending_start_pop [OF d p])
  have cl: "c ! lst = b ! pos" using p by (simp add: c_def)
  have "\<exists>r calls' hf. pop_heap_pos_cb lt record_move b pre lst pos
                          = (r, pre @ calls' @ [(b ! lst, lst, hf)])
          \<and> pending_stream b {lst, pos} r calls' \<and> hf < lst \<and> r ! hf = b ! lst \<and> r ! lst = b ! pos"
  proof (cases "0 < pos \<and> lt (c ! ((pos - 1) div 2)) (b ! lst)")
    case True
    have e: "pop_heap_pos_cb lt record_move b pre lst pos
               = up_heap_cb lt record_move c (pre @ []) pos (b ! lst) lst"
      by (simp only: pop_heap_pos_cb_def Let_def c_def [symmetric] if_P [OF True] append_Nil2)
    have "\<exists>r calls' hf. up_heap_cb lt record_move c (pre @ []) pos (b ! lst) lst
                          = (r, pre @ calls' @ [(b ! lst, lst, hf)])
          \<and> pending_stream b {lst, pos} r calls' \<and> hf \<le> pos \<and> r ! hf = b ! lst
          \<and> (\<forall>i. pos < i \<longrightarrow> r ! i = c ! i)"
      using p lc by (intro up_heap_cb_pending [OF d _ p(2) P]) (auto simp: c_def)
    then show ?thesis using e p cl by (metis le_less_trans)
  next
    case False
    have e: "pop_heap_pos_cb lt record_move b pre lst pos
               = down_heap_cb lt record_move c (pre @ []) lst pos (b ! lst) lst"
      by (simp only: pop_heap_pos_cb_def Let_def c_def [symmetric] if_not_P [OF False] append_Nil2)
    have "\<exists>r calls' hf. down_heap_cb lt record_move c (pre @ []) lst pos (b ! lst) lst
                          = (r, pre @ calls' @ [(b ! lst, lst, hf)])
          \<and> pending_stream b {lst, pos} r calls' \<and> hf < lst \<and> r ! hf = b ! lst
          \<and> (\<forall>i. lst \<le> i \<longrightarrow> r ! i = c ! i)"
      using p lc by (intro down_heap_cb_pending [OF d _ p(2) P]) (auto simp: c_def)
    then show ?thesis using e p cl by (metis order_refl)
  qed
  then obtain r calls' hf where
    r: "pop_heap_pos_cb lt record_move b pre lst pos = (r, pre @ calls' @ [(b ! lst, lst, hf)])"
      "pending_stream b {lst, pos} r calls'" "hf < lst" "r ! hf = b ! lst" "r ! lst = b ! pos"
    by blast
  have "r = pop_heap_pos lt b lst pos"
    using fst_pop_heap_pos_cb [of lt record_move b pre lst pos] r(1) by simp
  moreover have "exact_stream b r pos ((calls' @ [(b ! lst, lst, hf)]) @ [(b ! pos, pos, lst)])"
    using pending_finish_pop [OF d r(2) p r(3,4,5)] by simp
  ultimately show ?thesis using r(1,5) by (intro exI [of _ "calls' @ [(b ! lst, lst, hf)]"]) simp
qed

lemma exact_stream_mset: "exact_stream b r h calls \<Longrightarrow> mset r = mset b"
  by (simp add: exact_stream_def)

lemma exact_stream_stay:
  assumes d: "distinct b" and h: "h < length b"
  shows "exact_stream b b h [(b ! h, h, h)]"
  using pending_finish [OF d pending_start [OF d h] h h refl] by simp

subsection \<open>The sequence is that of the variant without observer\<close>

lemma fst_make_heap_cb_loop:
  "fst (make_heap_cb_loop lt moved a s len k) = make_heap_loop lt a len k"
proof (induction k arbitrary: a s)
  case 0
  show ?case by simp
next
  case (Suc k)
  obtain a1 s1 where e: "down_heap_cb lt moved a s len k (a ! k) k = (a1, s1)"
    by (cases "down_heap_cb lt moved a s len k (a ! k) k")
  then have "a1 = down_heap lt a len k (a ! k)"
    using fst_down_heap_cb [of lt moved a s len k "a ! k" k] by simp
  then show ?case using e Suc.IH [of a1 s1] by simp
qed

lemma fst_sort_heap_cb_loop:
  "fst (sort_heap_cb_loop lt moved a s lst) = sort_heap_loop lt a lst"
proof (induction lst arbitrary: a s rule: less_induct)
  case (less lst)
  show ?case
  proof (cases "1 < lst")
    case False
    then show ?thesis by (simp add: sort_heap_cb_loop_stop sort_heap_loop_stop)
  next
    case True
    obtain a1 s1 where e: "pop_heap_inner_cb lt moved a s (lst - 1) = (a1, s1)"
      by (cases "pop_heap_inner_cb lt moved a s (lst - 1)")
    then have a1: "a1 = pop_heap_inner lt a (lst - 1)"
      using fst_pop_heap_pos_cb [of lt moved a s "lst - 1" 0]
      by (simp add: pop_heap_inner_cb_eq pop_heap_inner_eq)
    have "lst - 1 < lst" using True by simp
    from less.IH [OF this] show ?thesis
      unfolding sort_heap_cb_loop_step [OF True] sort_heap_loop_step [OF True] e a1 [symmetric]
      by simp
  qed
qed

lemma push_heap_cb_result:
  assumes n: "0 < length a"
  shows "\<exists>s'. push_heap_cb lt moved a s = Inr (push_heap lt a, s')"
proof (cases "0 < length a - 1 \<and> lt (a ! ((length a - 1 - 1) div 2)) (a ! (length a - 1))")
  case True
  have "fst (up_heap_cb lt moved a s (length a - 1) (a ! (length a - 1)) (length a - 1))
          = up_heap lt a (length a - 1) (a ! (length a - 1))"
    by (rule fst_up_heap_cb)
  then show ?thesis
    unfolding push_heap_cb_unfold [OF n] push_heap_unfold [OF n] if_P [OF True]
    by (metis prod.collapse)
next
  case False
  show ?thesis
    unfolding push_heap_cb_unfold [OF n] push_heap_unfold [OF n] if_not_P [OF False]
    by simp
qed

lemma pop_heap_cb_result:
  assumes n: "0 < length a"
  shows "\<exists>s'. pop_heap_cb lt moved a s = Inr (pop_heap lt a, s')"
proof (cases "1 < length a")
  case True
  have "fst (pop_heap_pos_cb lt moved a s (length a - 1) 0) = pop_heap lt a"
    using True by (simp add: fst_pop_heap_pos_cb pop_heap_def pop_heap_inner_eq)
  then show ?thesis unfolding pop_heap_cb_many [OF True]
    by (cases "pop_heap_pos_cb lt moved a s (length a - 1) 0") simp
next
  case False
  then have l: "length a = 1" using n by (cases a) simp_all
  show ?thesis unfolding pop_heap_cb_single [OF l] using l by (simp add: pop_heap_def)
qed

lemma pop_heap_at_unfold:
  "pop_heap_at lt a k = (if k + 1 < length a then pop_heap_pos lt a (length a - 1) k else a)"
proof -
  have "(int (length a) - int k > 1) = (k + 1 < length a)" by auto
  then show ?thesis by (simp add: pop_heap_at_def)
qed

lemma pop_heap_at_cb_result:
  assumes k: "k < length a"
  shows "\<exists>s'. pop_heap_at_cb lt moved a s k = Inr (pop_heap_at lt a k, s')"
proof (cases "k + 1 < length a")
  case True
  have "fst (pop_heap_pos_cb lt moved a s (length a - 1) k) = pop_heap_at lt a k"
    using True by (simp add: fst_pop_heap_pos_cb pop_heap_at_unfold)
  then show ?thesis unfolding pop_heap_at_cb_inner [OF True]
    by (cases "pop_heap_pos_cb lt moved a s (length a - 1) k") simp
next
  case False
  then have l: "k + 1 = length a" using k by simp
  show ?thesis unfolding pop_heap_at_cb_final [OF l] using False by (simp add: pop_heap_at_unfold)
qed

lemma update_heap_cb_result:
  assumes k: "k < length a"
  shows "\<exists>s'. update_heap_cb lt moved a s k = Inr (projr (update_heap lt a k), s')
              \<and> update_heap lt a k = Inr (projr (update_heap lt a k))"
proof (cases "0 < k \<and> lt (a ! ((k - 1) div 2)) (a ! k)")
  case True
  have "fst (up_heap_cb lt moved a s k (a ! k) k) = up_heap lt a k (a ! k)"
    by (rule fst_up_heap_cb)
  then show ?thesis using k True
    unfolding update_heap_cb_def update_heap_def Let_def
    by (cases "up_heap_cb lt moved a s k (a ! k) k") simp
next
  case False
  have "fst (down_heap_cb lt moved a s (length a) k (a ! k) k) = down_heap lt a (length a) k (a ! k)"
    by (rule fst_down_heap_cb)
  then show ?thesis using k False
    unfolding update_heap_cb_def update_heap_def Let_def
    by (cases "down_heap_cb lt moved a s (length a) k (a ! k) k") auto
qed

subsection \<open>Exact streams of the six operations\<close>

lemma make_heap_cb_loop_exact:
  "distinct b \<Longrightarrow> k \<le> length b div 2 \<Longrightarrow>
   \<exists>steps. make_heap_cb_loop lt record_move b pre (length b) k
             = (last (b # map (snd \<circ> snd) steps), pre @ concat (map (fst \<circ> snd) steps))
        \<and> map fst steps = rev [0..<k] \<and> exact_steps b steps"
proof (induction k arbitrary: b pre)
  case 0
  show ?case by (intro exI [of _ "[]"]) simp
next
  case (Suc k)
  have k: "k < length b" using Suc.prems(2) by simp
  define r1 where "r1 = down_heap lt b (length b) k (b ! k)"
  obtain seg where
    s: "down_heap_cb lt record_move b pre (length b) k (b ! k) k = (r1, pre @ seg)"
      "exact_stream b r1 k seg"
    using down_heap_cb_exact [OF Suc.prems(1) k, of lt pre] unfolding r1_def by blast
  have d1: "distinct r1" using exact_stream_mset [OF s(2)] Suc.prems(1) by (rule distinct_mset_eq)
  have l1: "length r1 = length b" by (simp add: r1_def)
  have "\<exists>steps. make_heap_cb_loop lt record_move r1 (pre @ seg) (length r1) k
             = (last (r1 # map (snd \<circ> snd) steps), (pre @ seg) @ concat (map (fst \<circ> snd) steps))
        \<and> map fst steps = rev [0..<k] \<and> exact_steps r1 steps"
    using d1 Suc.prems(2) l1 by (intro Suc.IH) simp_all
  then obtain steps where
    t: "make_heap_cb_loop lt record_move r1 (pre @ seg) (length b) k
             = (last (r1 # map (snd \<circ> snd) steps), (pre @ seg) @ concat (map (fst \<circ> snd) steps))"
      "map fst steps = rev [0..<k]" "exact_steps r1 steps"
    unfolding l1 by blast
  show ?case using s t by (intro exI [of _ "(k, seg, r1) # steps"]) (simp add: comp_def)
qed

lemma sort_heap_cb_loop_exact:
  "distinct b \<Longrightarrow> lst \<le> length b \<Longrightarrow>
   \<exists>steps. sort_heap_cb_loop lt record_move b pre lst
             = (last (b # map (snd \<circ> snd) steps), pre @ concat (map (fst \<circ> snd) steps))
        \<and> map fst steps = replicate (lst - 1) 0 \<and> exact_steps b steps"
proof (induction lst arbitrary: b pre rule: less_induct)
  case (less lst)
  show ?case
  proof (cases "1 < lst")
    case False
    then have "lst - 1 = 0" by simp
    then show ?thesis using False
      by (intro exI [of _ "[]"]) (simp add: sort_heap_cb_loop_stop)
  next
    case True
    define l1 where "l1 = lst - 1"
    have l1: "0 < l1" "l1 < length b" "l1 < lst" "lst - 1 = Suc (l1 - 1)"
      using True less.prems(2) by (simp_all add: l1_def)
    define r1 where "r1 = pop_heap_pos lt b l1 0"
    obtain seg where
      s: "pop_heap_pos_cb lt record_move b pre l1 0 = (r1, pre @ seg)"
        "r1 ! l1 = b ! 0" "exact_stream b r1 0 (seg @ [(b ! 0, 0, l1)])"
      using pop_heap_pos_cb_exact [OF less.prems(1) l1(1,2), of lt pre] unfolding r1_def by blast
    have d1: "distinct r1"
      using exact_stream_mset [OF s(3)] less.prems(1) by (rule distinct_mset_eq)
    have len1: "length r1 = length b" using exact_stream_mset [OF s(3)] by (metis size_mset)
    have "\<exists>steps. sort_heap_cb_loop lt record_move r1 (pre @ seg @ [(b ! 0, 0, l1)]) l1
             = (last (r1 # map (snd \<circ> snd) steps),
                (pre @ seg @ [(b ! 0, 0, l1)]) @ concat (map (fst \<circ> snd) steps))
        \<and> map fst steps = replicate (l1 - 1) 0 \<and> exact_steps r1 steps"
      using d1 l1 len1 by (intro less.IH) simp_all
    then obtain steps where
      t: "sort_heap_cb_loop lt record_move r1 (pre @ seg @ [(b ! 0, 0, l1)]) l1
             = (last (r1 # map (snd \<circ> snd) steps),
                (pre @ seg @ [(b ! 0, 0, l1)]) @ concat (map (fst \<circ> snd) steps))"
        "map fst steps = replicate (l1 - 1) 0" "exact_steps r1 steps"
      by blast
    have e: "sort_heap_cb_loop lt record_move b pre lst
               = sort_heap_cb_loop lt record_move r1 (pre @ seg @ [(b ! 0, 0, l1)]) l1"
      unfolding sort_heap_cb_loop_step [OF True] pop_heap_inner_cb_eq l1_def [symmetric] s(1)
      by (simp add: s(2) record_move_def)
    show ?thesis unfolding e l1(4) using s t
      by (intro exI [of _ "(0, seg @ [(b ! 0, 0, l1)], r1) # steps"]) (simp add: comp_def)
  qed
qed

lemma push_heap_cb_exact:
  assumes d: "distinct b" and n: "0 < length b"
  shows "\<exists>calls. push_heap_cb lt record_move b [] = Inr (push_heap lt b, calls)
           \<and> exact_stream b (push_heap lt b) (length b - 1) calls"
proof -
  define h where "h = length b - 1"
  have h: "h < length b" using n by (simp add: h_def)
  show ?thesis
  proof (cases "0 < h \<and> lt (b ! ((h - 1) div 2)) (b ! h)")
    case True
    show ?thesis
      unfolding push_heap_cb_unfold [OF n] push_heap_unfold [OF n] h_def [symmetric] if_P [OF True]
      using up_heap_cb_exact [OF d h, of lt "[]"] by simp
  next
    case False
    show ?thesis
      unfolding push_heap_cb_unfold [OF n] push_heap_unfold [OF n] h_def [symmetric]
        if_not_P [OF False]
      using exact_stream_stay [OF d h] by (simp add: record_move_def)
  qed
qed

lemma pop_heap_cb_exact:
  assumes d: "distinct b" and n: "0 < length b"
  shows "\<exists>calls. pop_heap_cb lt record_move b [] = Inr (pop_heap lt b, calls)
           \<and> exact_stream b (pop_heap lt b) 0 calls"
proof (cases "1 < length b")
  case True
  define l1 where "l1 = length b - 1"
  have l1: "0 < l1" "l1 < length b" using True by (simp_all add: l1_def)
  have p: "pop_heap lt b = pop_heap_pos lt b l1 0"
    using True by (simp add: pop_heap_def pop_heap_inner_eq l1_def)
  obtain seg where
    s: "pop_heap_pos_cb lt record_move b [] l1 0 = (pop_heap_pos lt b l1 0, [] @ seg)"
      "pop_heap_pos lt b l1 0 ! l1 = b ! 0"
      "exact_stream b (pop_heap_pos lt b l1 0) 0 (seg @ [(b ! 0, 0, l1)])"
    using pop_heap_pos_cb_exact [OF d l1, of lt "[]"] by blast
  show ?thesis
    unfolding pop_heap_cb_many [OF True] l1_def [symmetric] p s(1)
    using s(2,3) by (simp add: record_move_def)
next
  case False
  then have l: "length b = 1" using n by (cases b) simp_all
  have "exact_stream b b 0 [(b ! 0, 0, 0)]" using l by (intro exact_stream_stay [OF d]) simp
  then show ?thesis unfolding pop_heap_cb_single [OF l] using l
    by (simp add: pop_heap_def record_move_def)
qed

lemma pop_heap_at_cb_exact:
  assumes d: "distinct b" and k: "k < length b"
  shows "\<exists>calls. pop_heap_at_cb lt record_move b [] k = Inr (pop_heap_at lt b k, calls)
           \<and> exact_stream b (pop_heap_at lt b k) k calls"
proof (cases "k + 1 < length b")
  case True
  define l1 where "l1 = length b - 1"
  have l1: "k < l1" "l1 < length b" using True by (simp_all add: l1_def)
  have p: "pop_heap_at lt b k = pop_heap_pos lt b l1 k"
    using True by (simp add: pop_heap_at_unfold l1_def)
  obtain seg where
    s: "pop_heap_pos_cb lt record_move b [] l1 k = (pop_heap_pos lt b l1 k, [] @ seg)"
      "pop_heap_pos lt b l1 k ! l1 = b ! k"
      "exact_stream b (pop_heap_pos lt b l1 k) k (seg @ [(b ! k, k, l1)])"
    using pop_heap_pos_cb_exact [OF d l1, of lt "[]"] by blast
  show ?thesis
    unfolding pop_heap_at_cb_inner [OF True] l1_def [symmetric] p s(1)
    using s(2,3) by (simp add: record_move_def)
next
  case False
  then have l: "k + 1 = length b" using k by simp
  have "exact_stream b b k [(b ! k, k, k)]" by (rule exact_stream_stay [OF d k])
  then show ?thesis unfolding pop_heap_at_cb_final [OF l] using False
    by (simp add: pop_heap_at_unfold record_move_def)
qed

lemma update_heap_cb_exact:
  assumes d: "distinct b" and k: "k < length b"
  shows "\<exists>r calls. update_heap lt b k = Inr r
           \<and> update_heap_cb lt record_move b [] k = Inr (r, calls)
           \<and> exact_stream b r k calls"
proof (cases "0 < k \<and> lt (b ! ((k - 1) div 2)) (b ! k)")
  case True
  show ?thesis using k True up_heap_cb_exact [OF d k, of lt "[]"]
    unfolding update_heap_cb_def update_heap_def Let_def by simp
next
  case False
  show ?thesis using k False down_heap_cb_exact [OF d k, of lt "[]"]
    unfolding update_heap_cb_def update_heap_def Let_def by auto
qed

lemma untag_record:
  "record_move (fst v) i j (untag calls) = untag (record_move v i j calls)"
  by (simp add: record_move_def untag_def)

lemma larger_child_untag:
  "2 * h + 1 < len \<Longrightarrow> len \<le> length c
   \<Longrightarrow> larger_child lt (map fst c) len h = larger_child (on_value lt) c len h"
  by (auto simp: larger_child_def on_value_def)

lemma down_heap_cb_untag:
  "h < len \<Longrightarrow> len \<le> length c \<Longrightarrow>
   down_heap_cb lt record_move (map fst c) (untag calls) len h (fst p) ppos
     = untag_run (down_heap_cb (on_value lt) record_move c calls len h p ppos)"
proof (induction "len - h" arbitrary: c h calls rule: less_induct)
  case less
  have hc: "h < length c" using less.prems by simp
  have stop: "down_heap_cb lt record_move (map fst c) (untag calls) len h (fst p) ppos
                = untag_run (c[h := p], record_move (c[h := p] ! h) ppos h calls)"
    if "down_heap_cb lt record_move (map fst c) (untag calls) len h (fst p) ppos
          = ((map fst c)[h := fst p], record_move ((map fst c)[h := fst p] ! h) ppos h (untag calls))"
    using that hc by (simp add: untag_run_def untag_record map_update)
  show ?case
  proof (cases "2 * h + 1 < len")
    case False
    show ?thesis
      unfolding down_heap_cb_leaf [OF False, of "on_value lt"]
      by (intro stop down_heap_cb_leaf False)
  next
    case True
    define ch where "ch = larger_child (on_value lt) c len h"
    have ch: "h < ch" "ch < len" using True by (simp_all add: ch_def larger_child_def)
    have lc: "larger_child lt (map fst c) len h = ch"
      unfolding ch_def using True less.prems(2) by (rule larger_child_untag)
    have cc: "map fst c ! ch = fst (c ! ch)" using ch less.prems by simp
    show ?thesis
    proof (cases "on_value lt (c ! ch) p")
      case lt: True
      then have lt': "lt (map fst c ! larger_child lt (map fst c) len h) (fst p)"
        unfolding lc cc by (simp add: on_value_def)
      show ?thesis
        unfolding down_heap_cb_stop_eq [of h len "on_value lt" c p record_move calls ppos,
            OF True lt [unfolded ch_def]]
        by (intro stop down_heap_cb_stop_eq True lt')
    next
      case nlt: False
      then have nlt': "\<not> lt (map fst c ! larger_child lt (map fst c) len h) (fst p)"
        unfolding lc cc by (simp add: on_value_def)
      define c1 where "c1 = c[h := c ! ch]"
      have m1: "(map fst c)[h := map fst c ! ch] = map fst c1"
        unfolding cc by (simp add: c1_def map_update)
      have v1: "map fst c1 ! h = fst (c1 ! h)" using hc by (simp add: c1_def)
      have "down_heap_cb lt record_move (map fst c) (untag calls) len h (fst p) ppos
             = down_heap_cb lt record_move (map fst c1)
                 (untag (record_move (c1 ! h) ch h calls)) len ch (fst p) ppos"
        unfolding down_heap_cb_descend_eq [of h len lt "map fst c" "fst p" record_move "untag calls" ppos,
            OF True nlt'] lc m1 v1 untag_record ..
      also have "\<dots> = untag_run (down_heap_cb (on_value lt) record_move c1
                                  (record_move (c1 ! h) ch h calls) len ch p ppos)"
        using ch less.prems by (intro less.hyps) (simp_all add: c1_def)
      also have "\<dots> = untag_run (down_heap_cb (on_value lt) record_move c calls len h p ppos)"
        unfolding down_heap_cb_descend_eq [of h len "on_value lt" c p record_move calls ppos,
            OF True nlt [unfolded ch_def]]
        by (simp only: ch_def c1_def)
      finally show ?thesis .
    qed
  qed
qed

lemma up_heap_cb_untag:
  "h < length c \<Longrightarrow>
   up_heap_cb lt record_move (map fst c) (untag calls) h (fst p) ppos
     = untag_run (up_heap_cb (on_value lt) record_move c calls h p ppos)"
proof (induction h arbitrary: c calls rule: less_induct)
  case (less h)
  have hc: "h < length c" using less.prems by simp
  define g where "g = (h - 1) div 2"
  have cond: "(0 < h \<and> lt (map fst c ! ((h - 1) div 2)) (fst p))
              = (0 < h \<and> on_value lt (c ! ((h - 1) div 2)) p)"
  proof (cases "0 < h")
    case True
    then have "(h - 1) div 2 < length c" using hc by simp
    then show ?thesis by (simp add: on_value_def)
  qed simp
  show ?case
  proof (cases "0 < h \<and> on_value lt (c ! ((h - 1) div 2)) p")
    case False
    then have F': "\<not> (0 < h \<and> lt (map fst c ! ((h - 1) div 2)) (fst p))" using cond by simp
    show ?thesis
      unfolding up_heap_cb_stop_eq [of h "on_value lt" c p record_move calls ppos, OF False]
        up_heap_cb_stop_eq [of h lt "map fst c" "fst p" record_move "untag calls" ppos, OF F']
      using hc by (simp add: untag_run_def untag_record map_update)
  next
    case True
    then have T': "0 < h \<and> lt (map fst c ! ((h - 1) div 2)) (fst p)" using cond by simp
    from True have t1: "0 < h" and t2: "on_value lt (c ! ((h - 1) div 2)) p" by blast+
    from T' have t2': "lt (map fst c ! ((h - 1) div 2)) (fst p)" by blast
    have g: "g < h" unfolding g_def using t1 by (rule parent_less)
    then have gc: "g < length c" using hc by simp
    define c1 where "c1 = c[h := c ! g]"
    have m1: "(map fst c)[h := map fst c ! g] = map fst c1"
      using gc by (simp add: c1_def map_update)
    have v1: "map fst c1 ! h = fst (c1 ! h)" using hc by (simp add: c1_def)
    note a1 = up_heap_cb_ascend_eq [of h lt "map fst c" "fst p" record_move "untag calls" ppos,
        OF t1 t2', folded g_def]
    note a2 = up_heap_cb_ascend_eq [of h "on_value lt" c p record_move calls ppos,
        OF t1 t2, folded g_def, folded c1_def]
    have "up_heap_cb lt record_move (map fst c) (untag calls) h (fst p) ppos
            = up_heap_cb lt record_move (map fst c1)
                (untag (record_move (c1 ! h) g h calls)) g (fst p) ppos"
      unfolding a1 m1 v1 untag_record ..
    also have "\<dots> = untag_run (up_heap_cb (on_value lt) record_move c1
                                 (record_move (c1 ! h) g h calls) g p ppos)"
      using g gc by (intro less.IH) (simp_all add: c1_def)
    also have "\<dots> = untag_run (up_heap_cb (on_value lt) record_move c calls h p ppos)"
      unfolding a2 ..
    finally show ?thesis .
  qed
qed

subsection \<open>Tags do not change a run\<close>

lemma untag_run_pair: "untag_run (r, calls) = (map fst r, untag calls)"
  by (simp add: untag_run_def)

lemma make_heap_cb_loop_untag:
  "k \<le> length c div 2 \<Longrightarrow>
   make_heap_cb_loop lt record_move (map fst c) (untag calls) (length c) k
     = untag_run (make_heap_cb_loop (on_value lt) record_move c calls (length c) k)"
proof (induction k arbitrary: c calls)
  case 0
  show ?case by (simp add: untag_run_def)
next
  case (Suc k)
  have k: "k < length c" using Suc.prems by simp
  obtain c1 calls1 where
    e: "down_heap_cb (on_value lt) record_move c calls (length c) k (c ! k) k = (c1, calls1)"
    by (cases "down_heap_cb (on_value lt) record_move c calls (length c) k (c ! k) k")
  have "c1 = down_heap (on_value lt) c (length c) k (c ! k)"
    using fst_down_heap_cb [of "on_value lt" record_move c calls "length c" k "c ! k" k] e by simp
  then have l1: "length c1 = length c" by simp
  have "down_heap_cb lt record_move (map fst c) (untag calls) (length c) k (fst (c ! k)) k
          = (map fst c1, untag calls1)"
    using down_heap_cb_untag [of k "length c" c lt calls "c ! k" k] k e
    by (simp add: untag_run_def)
  then have e': "down_heap_cb lt record_move (map fst c) (untag calls) (length c) k
                   (map fst c ! k) k = (map fst c1, untag calls1)"
    using k by simp
  have "make_heap_cb_loop lt record_move (map fst c1) (untag calls1) (length c1) k
     = untag_run (make_heap_cb_loop (on_value lt) record_move c1 calls1 (length c1) k)"
    using Suc.prems l1 by (intro Suc.IH) simp
  then show ?case unfolding l1 by (simp add: e e')
qed

lemma pop_heap_pos_cb_untag:
  assumes p: "pos < lst" "lst < length c"
  shows "pop_heap_pos_cb lt record_move (map fst c) (untag calls) lst pos
     = untag_run (pop_heap_pos_cb (on_value lt) record_move c calls lst pos)"
proof -
  define c1 where "c1 = c[lst := c ! pos]"
  have lc: "length c1 = length c" by (simp add: c1_def)
  have m1: "(map fst c)[lst := map fst c ! pos] = map fst c1"
    using p by (simp add: c1_def map_update)
  have v: "map fst c ! lst = fst (c ! lst)" using p by simp
  have cond: "(0 < pos \<and> lt (map fst c1 ! ((pos - 1) div 2)) (fst (c ! lst)))
              = (0 < pos \<and> on_value lt (c1 ! ((pos - 1) div 2)) (c ! lst))"
  proof (cases "0 < pos")
    case True
    then have "(pos - 1) div 2 < length c1" using p lc by simp
    then show ?thesis by (simp add: on_value_def)
  qed simp
  show ?thesis
  proof (cases "0 < pos \<and> on_value lt (c1 ! ((pos - 1) div 2)) (c ! lst)")
    case True
    then have T': "0 < pos \<and> lt (map fst c1 ! ((pos - 1) div 2)) (fst (c ! lst))"
      using cond by simp
    have "pop_heap_pos_cb lt record_move (map fst c) (untag calls) lst pos
            = up_heap_cb lt record_move (map fst c1) (untag calls) pos (fst (c ! lst)) lst"
      by (simp only: pop_heap_pos_cb_def Let_def m1 v if_P [OF T'])
    also have "\<dots> = untag_run (up_heap_cb (on_value lt) record_move c1 calls pos (c ! lst) lst)"
      using p lc by (intro up_heap_cb_untag) simp
    also have "\<dots> = untag_run (pop_heap_pos_cb (on_value lt) record_move c calls lst pos)"
      by (simp only: pop_heap_pos_cb_def Let_def c1_def [symmetric] if_P [OF True])
    finally show ?thesis .
  next
    case False
    then have F': "\<not> (0 < pos \<and> lt (map fst c1 ! ((pos - 1) div 2)) (fst (c ! lst)))"
      using cond by simp
    have "pop_heap_pos_cb lt record_move (map fst c) (untag calls) lst pos
            = down_heap_cb lt record_move (map fst c1) (untag calls) lst pos (fst (c ! lst)) lst"
      by (simp only: pop_heap_pos_cb_def Let_def m1 v if_not_P [OF F'])
    also have "\<dots> = untag_run (down_heap_cb (on_value lt) record_move c1 calls lst pos (c ! lst) lst)"
      using p lc by (intro down_heap_cb_untag) simp_all
    also have "\<dots> = untag_run (pop_heap_pos_cb (on_value lt) record_move c calls lst pos)"
      by (simp only: pop_heap_pos_cb_def Let_def c1_def [symmetric] if_not_P [OF False])
    finally show ?thesis .
  qed
qed

lemma length_pop_heap_pos [simp]: "length (pop_heap_pos lt a lst pos) = length a"
  by (simp add: pop_heap_pos_def Let_def)

lemma sort_heap_cb_loop_untag:
  "lst \<le> length c \<Longrightarrow>
   sort_heap_cb_loop lt record_move (map fst c) (untag calls) lst
     = untag_run (sort_heap_cb_loop (on_value lt) record_move c calls lst)"
proof (induction lst arbitrary: c calls rule: less_induct)
  case (less lst)
  show ?case
  proof (cases "1 < lst")
    case False
    then show ?thesis by (simp add: sort_heap_cb_loop_stop untag_run_def)
  next
    case True
    define l1 where "l1 = lst - 1"
    have l1: "0 < l1" "l1 < length c" "l1 < lst" using True less.prems by (simp_all add: l1_def)
    obtain c1 calls1 where
      e: "pop_heap_pos_cb (on_value lt) record_move c calls l1 0 = (c1, calls1)"
      by (cases "pop_heap_pos_cb (on_value lt) record_move c calls l1 0")
    have "c1 = pop_heap_pos (on_value lt) c l1 0"
      using fst_pop_heap_pos_cb [of "on_value lt" record_move c calls l1 0] e by simp
    then have len1: "length c1 = length c" by simp
    have e': "pop_heap_pos_cb lt record_move (map fst c) (untag calls) l1 0
                = (map fst c1, untag calls1)"
      using pop_heap_pos_cb_untag [OF l1(1,2), of lt calls] e by (simp add: untag_run_def)
    have v: "map fst c1 ! l1 = fst (c1 ! l1)" using l1 len1 by simp
    have "sort_heap_cb_loop lt record_move (map fst c) (untag calls) lst
            = sort_heap_cb_loop lt record_move (map fst c1)
                (untag (record_move (c1 ! l1) 0 l1 calls1)) l1"
      unfolding sort_heap_cb_loop_step [OF True] pop_heap_inner_cb_eq l1_def [symmetric] e'
      by (simp add: v untag_record)
    also have "\<dots> = untag_run (sort_heap_cb_loop (on_value lt) record_move c1
                                  (record_move (c1 ! l1) 0 l1 calls1) l1)"
      using l1 len1 by (intro less.IH) simp_all
    also have "\<dots> = untag_run (sort_heap_cb_loop (on_value lt) record_move c calls lst)"
      unfolding sort_heap_cb_loop_step [OF True, of "on_value lt"] pop_heap_inner_cb_eq
        l1_def [symmetric] e
      by simp
    finally show ?thesis .
  qed
qed

lemma push_heap_cb_untag:
  assumes n: "0 < length c"
  shows "push_heap_cb lt record_move (map fst c) (untag calls)
           = map_sum id untag_run (push_heap_cb (on_value lt) record_move c calls)"
proof -
  define h where "h = length c - 1"
  have h: "h < length c" using n by (simp add: h_def)
  have n': "0 < length (map fst c)" using n by simp
  have cond: "(0 < h \<and> lt (map fst c ! ((h - 1) div 2)) (map fst c ! h))
              = (0 < h \<and> on_value lt (c ! ((h - 1) div 2)) (c ! h))"
  proof (cases "0 < h")
    case True
    then have "(h - 1) div 2 < length c" using h by simp
    then show ?thesis using h by (simp add: on_value_def)
  qed simp
  note u1 = push_heap_cb_unfold [OF n', of lt record_move "untag calls", unfolded length_map,
      folded h_def]
  note u2 = push_heap_cb_unfold [OF n, of "on_value lt" record_move calls, folded h_def]
  show ?thesis
  proof (cases "0 < h \<and> on_value lt (c ! ((h - 1) div 2)) (c ! h)")
    case True
    then have T': "0 < h \<and> lt (map fst c ! ((h - 1) div 2)) (map fst c ! h)" using cond by simp
    have "up_heap_cb lt record_move (map fst c) (untag calls) h (fst (c ! h)) h
            = untag_run (up_heap_cb (on_value lt) record_move c calls h (c ! h) h)"
      using h by (rule up_heap_cb_untag)
    then show ?thesis unfolding u1 u2 if_P [OF True] if_P [OF T'] using h by simp
  next
    case False
    then have F': "\<not> (0 < h \<and> lt (map fst c ! ((h - 1) div 2)) (map fst c ! h))"
      using cond by simp
    show ?thesis unfolding u1 u2 if_not_P [OF False] if_not_P [OF F'] using h
      by (simp add: untag_run_def untag_record)
  qed
qed

lemma pop_heap_cb_untag:
  assumes n: "0 < length c"
  shows "pop_heap_cb lt record_move (map fst c) (untag calls)
           = map_sum id untag_run (pop_heap_cb (on_value lt) record_move c calls)"
proof (cases "1 < length c")
  case True
  define l1 where "l1 = length c - 1"
  have l1: "0 < l1" "l1 < length c" using True by (simp_all add: l1_def)
  have T': "1 < length (map fst c)" using True by simp
  obtain c1 calls1 where
    e: "pop_heap_pos_cb (on_value lt) record_move c calls l1 0 = (c1, calls1)"
    by (cases "pop_heap_pos_cb (on_value lt) record_move c calls l1 0")
  have "c1 = pop_heap_pos (on_value lt) c l1 0"
    using fst_pop_heap_pos_cb [of "on_value lt" record_move c calls l1 0] e by simp
  then have len1: "length c1 = length c" by simp
  have e': "pop_heap_pos_cb lt record_move (map fst c) (untag calls) l1 0
              = (map fst c1, untag calls1)"
    using pop_heap_pos_cb_untag [OF l1, of lt calls] e by (simp add: untag_run_def)
  show ?thesis
    unfolding pop_heap_cb_many [OF True] pop_heap_cb_many [OF T'] length_map l1_def [symmetric] e e'
    using l1 len1 by (simp add: untag_run_def untag_record)
next
  case False
  then have l: "length c = 1" using n by (cases c) simp_all
  then have l': "length (map fst c) = 1" by simp
  show ?thesis unfolding pop_heap_cb_single [OF l] pop_heap_cb_single [OF l'] using l
    by (simp add: untag_run_def untag_record)
qed

lemma pop_heap_at_cb_untag:
  assumes k: "k < length c"
  shows "pop_heap_at_cb lt record_move (map fst c) (untag calls) k
           = map_sum id untag_run (pop_heap_at_cb (on_value lt) record_move c calls k)"
proof (cases "k + 1 < length c")
  case True
  define l1 where "l1 = length c - 1"
  have l1: "k < l1" "l1 < length c" using True by (simp_all add: l1_def)
  have T': "k + 1 < length (map fst c)" using True by simp
  obtain c1 calls1 where
    e: "pop_heap_pos_cb (on_value lt) record_move c calls l1 k = (c1, calls1)"
    by (cases "pop_heap_pos_cb (on_value lt) record_move c calls l1 k")
  have "c1 = pop_heap_pos (on_value lt) c l1 k"
    using fst_pop_heap_pos_cb [of "on_value lt" record_move c calls l1 k] e by simp
  then have len1: "length c1 = length c" by simp
  have e': "pop_heap_pos_cb lt record_move (map fst c) (untag calls) l1 k
              = (map fst c1, untag calls1)"
    using pop_heap_pos_cb_untag [OF l1, of lt calls] e by (simp add: untag_run_def)
  show ?thesis
    unfolding pop_heap_at_cb_inner [OF True] pop_heap_at_cb_inner [OF T'] length_map
      l1_def [symmetric] e e'
    using l1 len1 by (simp add: untag_run_def untag_record)
next
  case False
  then have l: "k + 1 = length c" using k by simp
  then have l': "k + 1 = length (map fst c)" by simp
  show ?thesis unfolding pop_heap_at_cb_final [OF l] pop_heap_at_cb_final [OF l'] using k
    by (simp add: untag_run_def untag_record)
qed

lemma update_heap_cb_untag:
  assumes k: "k < length c"
  shows "update_heap_cb lt record_move (map fst c) (untag calls) k
           = map_sum id untag_run (update_heap_cb (on_value lt) record_move c calls k)"
proof -
  have cond: "(0 < k \<and> lt (map fst c ! ((k - 1) div 2)) (map fst c ! k))
              = (0 < k \<and> on_value lt (c ! ((k - 1) div 2)) (c ! k))"
  proof (cases "0 < k")
    case True
    then have "(k - 1) div 2 < length c" using k by simp
    then show ?thesis using k by (simp add: on_value_def)
  qed simp
  have nk: "\<not> length c \<le> k" "\<not> length (map fst c) \<le> k" using k by simp_all
  show ?thesis
  proof (cases "0 < k \<and> on_value lt (c ! ((k - 1) div 2)) (c ! k)")
    case True
    then have T': "0 < k \<and> lt (map fst c ! ((k - 1) div 2)) (map fst c ! k)" using cond by simp
    have "up_heap_cb lt record_move (map fst c) (untag calls) k (fst (c ! k)) k
            = untag_run (up_heap_cb (on_value lt) record_move c calls k (c ! k) k)"
      using k by (rule up_heap_cb_untag)
    then show ?thesis
      unfolding update_heap_cb_def Let_def if_not_P [OF nk(1)] if_not_P [OF nk(2)]
        if_P [OF True] if_P [OF T']
      using k by simp
  next
    case False
    then have F': "\<not> (0 < k \<and> lt (map fst c ! ((k - 1) div 2)) (map fst c ! k))"
      using cond by simp
    have "down_heap_cb lt record_move (map fst c) (untag calls) (length c) k (fst (c ! k)) k
            = untag_run (down_heap_cb (on_value lt) record_move c calls (length c) k (c ! k) k)"
      using k by (intro down_heap_cb_untag) simp_all
    then show ?thesis
      unfolding update_heap_cb_def Let_def if_not_P [OF nk(1)] if_not_P [OF nk(2)]
        if_not_P [OF False] if_not_P [OF F']
      using k by simp
  qed
qed

subsection \<open>The tagged sequence\<close>

lemma length_tagged [simp]: "length (tagged a) = length a"
  by (simp add: tagged_def)

lemma map_fst_tagged [simp]: "map fst (tagged a) = a"
  by (simp add: tagged_def)

lemma distinct_tagged: "distinct (tagged a)"
  unfolding tagged_def by (rule distinct_zipI2) simp

lemma tracks_tagged: "tracks snd (tagged a)"
  by (simp add: tracks_def tagged_def)

lemma untag_Nil [simp]: "untag [] = []"
  by (simp add: untag_def)

subsection \<open>The six operations on a labelled sequence\<close>

lemma make_heap_cb_observed:
  "\<exists>r calls steps.
      make_heap_cb (on_value lt) record_move (tagged a) [] = (r, calls)
    \<and> make_heap_cb lt record_move a [] = (map fst r, untag calls)
    \<and> map fst r = make_heap lt a
    \<and> map fst steps = rev [0..<length a div 2]
    \<and> concat (map (fst \<circ> snd) steps) = calls
    \<and> exact_steps (tagged a) steps
    \<and> last (tagged a # map (snd \<circ> snd) steps) = r
    \<and> (\<exists>m. make_heap_cb (on_value lt) track_move (tagged a) (snd, True) = (r, (m, True))
            \<and> tracks m r)"
proof -
  define k where "k = length a div 2"
  have k: "k \<le> length (tagged a) div 2" by (simp add: k_def)
  obtain steps where
    s: "make_heap_cb_loop (on_value lt) record_move (tagged a) [] (length (tagged a)) k
          = (last (tagged a # map (snd \<circ> snd) steps), [] @ concat (map (fst \<circ> snd) steps))"
      "map fst steps = rev [0..<k]" "exact_steps (tagged a) steps"
    using make_heap_cb_loop_exact [OF distinct_tagged k, of "on_value lt" "[]"] by blast
  define r where "r = last (tagged a # map (snd \<circ> snd) steps)"
  define calls where "calls = concat (map (fst \<circ> snd) steps)"
  have run: "make_heap_cb (on_value lt) record_move (tagged a) [] = (r, calls)"
    using s(1) by (simp add: make_heap_cb_def k_def r_def calls_def)
  have r: "r = make_heap_loop (on_value lt) (tagged a) (length (tagged a)) k"
    using fst_make_heap_cb_loop [of "on_value lt" record_move "tagged a" "[]" "length (tagged a)" k]
      s(1) by (simp add: r_def)
  have "make_heap_cb_loop lt record_move (map fst (tagged a)) (untag []) (length (tagged a)) k
          = untag_run (make_heap_cb_loop (on_value lt) record_move (tagged a) [] (length (tagged a)) k)"
    using k by (rule make_heap_cb_loop_untag)
  then have un: "make_heap_cb lt record_move a [] = (map fst r, untag calls)"
    using s(1) by (simp add: make_heap_cb_def k_def r_def calls_def untag_run_def)
  have pl: "map fst r = make_heap lt a"
    using fst_make_heap_cb_loop [of lt record_move a "[]" "length a" k] un
    by (simp add: make_heap_cb_def make_heap_def k_def)
  have "\<exists>m. make_heap_cb_loop (on_value lt) track_move (tagged a) (snd, True) (length (tagged a)) k
               = (r, (m, True)) \<and> tracks m r"
    unfolding r by (rule make_heap_cb_loop_tracks [OF distinct_tagged tracks_tagged k])
  then have tr: "\<exists>m. make_heap_cb (on_value lt) track_move (tagged a) (snd, True) = (r, (m, True))
                     \<and> tracks m r"
    by (simp add: make_heap_cb_def k_def)
  show ?thesis
    using run un pl s(2,3) tr unfolding k_def
    by (intro exI [of _ r] exI [of _ calls] exI [of _ steps]) (simp add: r_def calls_def)
qed

lemma sort_heap_cb_observed:
  "\<exists>r calls steps.
      sort_heap_cb (on_value lt) record_move (tagged a) [] = (r, calls)
    \<and> sort_heap_cb lt record_move a [] = (map fst r, untag calls)
    \<and> map fst r = sort_heap lt a
    \<and> map fst steps = replicate (length a - 1) 0
    \<and> concat (map (fst \<circ> snd) steps) = calls
    \<and> exact_steps (tagged a) steps
    \<and> last (tagged a # map (snd \<circ> snd) steps) = r
    \<and> (\<exists>m. sort_heap_cb (on_value lt) track_move (tagged a) (snd, True) = (r, (m, True))
            \<and> tracks m r)"
proof -
  define n where "n = length a"
  have n: "n \<le> length (tagged a)" by (simp add: n_def)
  obtain steps where
    s: "sort_heap_cb_loop (on_value lt) record_move (tagged a) [] n
          = (last (tagged a # map (snd \<circ> snd) steps), [] @ concat (map (fst \<circ> snd) steps))"
      "map fst steps = replicate (n - 1) 0" "exact_steps (tagged a) steps"
    using sort_heap_cb_loop_exact [OF distinct_tagged n, of "on_value lt" "[]"] by blast
  define r where "r = last (tagged a # map (snd \<circ> snd) steps)"
  define calls where "calls = concat (map (fst \<circ> snd) steps)"
  have run: "sort_heap_cb (on_value lt) record_move (tagged a) [] = (r, calls)"
    using s(1) by (simp add: sort_heap_cb_def n_def r_def calls_def)
  have r: "r = sort_heap_loop (on_value lt) (tagged a) n"
    using fst_sort_heap_cb_loop [of "on_value lt" record_move "tagged a" "[]" n]
      s(1) by (simp add: r_def)
  have "sort_heap_cb_loop lt record_move (map fst (tagged a)) (untag []) n
          = untag_run (sort_heap_cb_loop (on_value lt) record_move (tagged a) [] n)"
    using n by (rule sort_heap_cb_loop_untag)
  then have un: "sort_heap_cb lt record_move a [] = (map fst r, untag calls)"
    using s(1) by (simp add: sort_heap_cb_def n_def r_def calls_def untag_run_def)
  have pl: "map fst r = sort_heap lt a"
    using fst_sort_heap_cb_loop [of lt record_move a "[]" n] un
    by (simp add: sort_heap_cb_def sort_heap_def n_def)
  have "\<exists>m. sort_heap_cb_loop (on_value lt) track_move (tagged a) (snd, True) n
               = (r, (m, True)) \<and> tracks m r"
    unfolding r by (rule sort_heap_cb_loop_tracks [OF distinct_tagged tracks_tagged n])
  then have tr: "\<exists>m. sort_heap_cb (on_value lt) track_move (tagged a) (snd, True) = (r, (m, True))
                     \<and> tracks m r"
    by (simp add: sort_heap_cb_def n_def)
  show ?thesis
    using run un pl s(2,3) tr unfolding n_def
    by (intro exI [of _ r] exI [of _ calls] exI [of _ steps]) (simp add: r_def calls_def)
qed

lemma push_heap_cb_observed:
  assumes n: "0 < length a"
  shows "\<exists>r calls.
      push_heap_cb (on_value lt) record_move (tagged a) [] = Inr (r, calls)
    \<and> push_heap_cb lt record_move a [] = Inr (map fst r, untag calls)
    \<and> map fst r = push_heap lt a
    \<and> exact_stream (tagged a) r (length a - 1) calls
    \<and> (\<exists>m. push_heap_cb (on_value lt) track_move (tagged a) (snd, True) = Inr (r, (m, True))
            \<and> tracks m r)"
proof -
  have n': "0 < length (tagged a)" using n by simp
  define r where "r = push_heap (on_value lt) (tagged a)"
  obtain calls where
    s: "push_heap_cb (on_value lt) record_move (tagged a) [] = Inr (r, calls)"
      "exact_stream (tagged a) r (length (tagged a) - 1) calls"
    using push_heap_cb_exact [OF distinct_tagged n', of "on_value lt"] unfolding r_def by blast
  have un: "push_heap_cb lt record_move a [] = Inr (map fst r, untag calls)"
    using push_heap_cb_untag [OF n', of lt "[]"] s(1) by (simp add: untag_run_def)
  have pl: "map fst r = push_heap lt a"
    using push_heap_cb_result [OF n, of lt record_move "[]"] un by auto
  have tr: "\<exists>m. push_heap_cb (on_value lt) track_move (tagged a) (snd, True) = Inr (r, (m, True))
                \<and> tracks m r"
    unfolding r_def by (rule push_heap_cb_tracks [OF distinct_tagged tracks_tagged n'])
  show ?thesis using s un pl tr by (intro exI [of _ r] exI [of _ calls]) simp
qed

lemma pop_heap_cb_observed:
  assumes n: "0 < length a"
  shows "\<exists>r calls.
      pop_heap_cb (on_value lt) record_move (tagged a) [] = Inr (r, calls)
    \<and> pop_heap_cb lt record_move a [] = Inr (map fst r, untag calls)
    \<and> map fst r = pop_heap lt a
    \<and> exact_stream (tagged a) r 0 calls
    \<and> (\<exists>m. pop_heap_cb (on_value lt) track_move (tagged a) (snd, True) = Inr (r, (m, True))
            \<and> tracks m r)"
proof -
  have n': "0 < length (tagged a)" using n by simp
  define r where "r = pop_heap (on_value lt) (tagged a)"
  obtain calls where
    s: "pop_heap_cb (on_value lt) record_move (tagged a) [] = Inr (r, calls)"
      "exact_stream (tagged a) r 0 calls"
    using pop_heap_cb_exact [OF distinct_tagged n', of "on_value lt"] unfolding r_def by blast
  have un: "pop_heap_cb lt record_move a [] = Inr (map fst r, untag calls)"
    using pop_heap_cb_untag [OF n', of lt "[]"] s(1) by (simp add: untag_run_def)
  have pl: "map fst r = pop_heap lt a"
    using pop_heap_cb_result [OF n, of lt record_move "[]"] un by auto
  have tr: "\<exists>m. pop_heap_cb (on_value lt) track_move (tagged a) (snd, True) = Inr (r, (m, True))
                \<and> tracks m r"
    unfolding r_def by (rule pop_heap_cb_tracks [OF distinct_tagged tracks_tagged n'])
  show ?thesis using s un pl tr by (intro exI [of _ r] exI [of _ calls]) simp
qed

lemma pop_heap_at_cb_observed:
  assumes k: "k < length a"
  shows "\<exists>r calls.
      pop_heap_at_cb (on_value lt) record_move (tagged a) [] k = Inr (r, calls)
    \<and> pop_heap_at_cb lt record_move a [] k = Inr (map fst r, untag calls)
    \<and> map fst r = pop_heap_at lt a k
    \<and> exact_stream (tagged a) r k calls
    \<and> (\<exists>m. pop_heap_at_cb (on_value lt) track_move (tagged a) (snd, True) k = Inr (r, (m, True))
            \<and> tracks m r)"
proof -
  have k': "k < length (tagged a)" using k by simp
  define r where "r = pop_heap_at (on_value lt) (tagged a) k"
  obtain calls where
    s: "pop_heap_at_cb (on_value lt) record_move (tagged a) [] k = Inr (r, calls)"
      "exact_stream (tagged a) r k calls"
    using pop_heap_at_cb_exact [OF distinct_tagged k', of "on_value lt"] unfolding r_def by blast
  have un: "pop_heap_at_cb lt record_move a [] k = Inr (map fst r, untag calls)"
    using pop_heap_at_cb_untag [OF k', of lt "[]"] s(1) by (simp add: untag_run_def)
  have pl: "map fst r = pop_heap_at lt a k"
    using pop_heap_at_cb_result [OF k, of lt record_move "[]"] un by auto
  have tr: "\<exists>m. pop_heap_at_cb (on_value lt) track_move (tagged a) (snd, True) k
                  = Inr (r, (m, True)) \<and> tracks m r"
    unfolding r_def by (rule pop_heap_at_cb_tracks [OF distinct_tagged tracks_tagged k'])
  show ?thesis using s un pl tr by (intro exI [of _ r] exI [of _ calls]) simp
qed

lemma update_heap_cb_observed:
  assumes k: "k < length a"
  shows "\<exists>r calls.
      update_heap_cb (on_value lt) record_move (tagged a) [] k = Inr (r, calls)
    \<and> update_heap_cb lt record_move a [] k = Inr (map fst r, untag calls)
    \<and> update_heap lt a k = Inr (map fst r)
    \<and> exact_stream (tagged a) r k calls
    \<and> (\<exists>m. update_heap_cb (on_value lt) track_move (tagged a) (snd, True) k = Inr (r, (m, True))
            \<and> tracks m r)"
proof -
  have k': "k < length (tagged a)" using k by simp
  obtain r calls where
    s: "update_heap (on_value lt) (tagged a) k = Inr r"
      "update_heap_cb (on_value lt) record_move (tagged a) [] k = Inr (r, calls)"
      "exact_stream (tagged a) r k calls"
    using update_heap_cb_exact [OF distinct_tagged k', of "on_value lt"] by blast
  have un: "update_heap_cb lt record_move a [] k = Inr (map fst r, untag calls)"
    using update_heap_cb_untag [OF k', of lt "[]"] s(2) by (simp add: untag_run_def)
  have pl: "update_heap lt a k = Inr (map fst r)"
    using update_heap_cb_result [OF k, of lt record_move "[]"] un by auto
  have tr: "\<exists>m. update_heap_cb (on_value lt) track_move (tagged a) (snd, True) k
                  = Inr (r, (m, True)) \<and> tracks m r"
    using update_heap_cb_tracks [OF distinct_tagged tracks_tagged k', of "on_value lt" True] s(1)
    by auto
  show ?thesis using s un pl tr by (intro exI [of _ r] exI [of _ calls]) simp
qed

text \<open>
  C3. For every observer variant (\<open>make_heap\<close>, \<open>sort_heap\<close>, \<open>push_heap\<close>, \<open>pop_heap\<close>,
  positional \<open>pop_heap\<close>, \<open>update_heap\<close>), every input sequence within the operation's
  index precondition (duplicates included) and every comparator: the run is the run on
  the sequence with each element labelled by its initial slot, labels removed, and its
  sequence is that of the variant without observer. In the labelled run each relocation
  of an element into a slot triggers exactly one call \<open>moved(value, from, to)\<close>, with
  \<open>from\<close> the slot the element occupied before and \<open>to\<close> the slot it occupies after; the
  element the operation has in hand (the new element of \<open>push_heap\<close>, the popped element,
  the updated element, the value sifted from each internal node in \<open>make_heap\<close>) is
  reported with \<open>from = to\<close> when it comes to rest where it started; and there is no
  other call. For \<open>make_heap\<close> this holds sift by sift, for the internal nodes
  \<open>n/2 - 1, \<dots>, 0\<close> in that order, and for \<open>sort_heap\<close> pop by pop. An observer that
  keeps an index from elements to slots, checks \<open>from\<close> against it on each call and then
  stores \<open>to\<close>, never sees a mismatch and ends with the index of the final sequence.
\<close>

theorem observer_stream_exact:
  "(\<exists>r calls steps.
      make_heap_cb (on_value lt) record_move (tagged a) [] = (r, calls)
    \<and> make_heap_cb lt record_move a [] = (map fst r, untag calls)
    \<and> map fst r = make_heap lt a
    \<and> map fst steps = rev [0..<length a div 2]
    \<and> concat (map (fst \<circ> snd) steps) = calls
    \<and> exact_steps (tagged a) steps
    \<and> last (tagged a # map (snd \<circ> snd) steps) = r
    \<and> (\<exists>m. make_heap_cb (on_value lt) track_move (tagged a) (snd, True) = (r, (m, True))
            \<and> tracks m r))
   \<and> (\<exists>r calls steps.
      sort_heap_cb (on_value lt) record_move (tagged a) [] = (r, calls)
    \<and> sort_heap_cb lt record_move a [] = (map fst r, untag calls)
    \<and> map fst r = sort_heap lt a
    \<and> map fst steps = replicate (length a - 1) 0
    \<and> concat (map (fst \<circ> snd) steps) = calls
    \<and> exact_steps (tagged a) steps
    \<and> last (tagged a # map (snd \<circ> snd) steps) = r
    \<and> (\<exists>m. sort_heap_cb (on_value lt) track_move (tagged a) (snd, True) = (r, (m, True))
            \<and> tracks m r))
   \<and> (0 < length a \<longrightarrow> (\<exists>r calls.
      push_heap_cb (on_value lt) record_move (tagged a) [] = Inr (r, calls)
    \<and> push_heap_cb lt record_move a [] = Inr (map fst r, untag calls)
    \<and> map fst r = push_heap lt a
    \<and> exact_stream (tagged a) r (length a - 1) calls
    \<and> (\<exists>m. push_heap_cb (on_value lt) track_move (tagged a) (snd, True) = Inr (r, (m, True))
            \<and> tracks m r)))
   \<and> (0 < length a \<longrightarrow> (\<exists>r calls.
      pop_heap_cb (on_value lt) record_move (tagged a) [] = Inr (r, calls)
    \<and> pop_heap_cb lt record_move a [] = Inr (map fst r, untag calls)
    \<and> map fst r = pop_heap lt a
    \<and> exact_stream (tagged a) r 0 calls
    \<and> (\<exists>m. pop_heap_cb (on_value lt) track_move (tagged a) (snd, True) = Inr (r, (m, True))
            \<and> tracks m r)))
   \<and> (k < length a \<longrightarrow> (\<exists>r calls.
      pop_heap_at_cb (on_value lt) record_move (tagged a) [] k = Inr (r, calls)
    \<and> pop_heap_at_cb lt record_move a [] k = Inr (map fst r, untag calls)
    \<and> map fst r = pop_heap_at lt a k
    \<and> exact_stream (tagged a) r k calls
    \<and> (\<exists>m. pop_heap_at_cb (on_value lt) track_move (tagged a) (snd, True) k = Inr (r, (m, True))
            \<and> tracks m r)))
   \<and> (k < length a \<longrightarrow> (\<exists>r calls.
      update_heap_cb (on_value lt) record_move (tagged a) [] k = Inr (r, calls)
    \<and> update_heap_cb lt record_move a [] k = Inr (map fst r, untag calls)
    \<and> update_heap lt a k = Inr (map fst r)
    \<and> exact_stream (tagged a) r k calls
    \<and> (\<exists>m. update_heap_cb (on_value lt) track_move (tagged a) (snd, True) k = Inr (r, (m, True))
            \<and> tracks m r)))"
  by (intro conjI impI make_heap_cb_observed sort_heap_cb_observed push_heap_cb_observed
      pop_heap_cb_observed pop_heap_at_cb_observed update_heap_cb_observed)

theorem observer_stream_exact_witness:
  "0 < length [7, 3, 5 :: nat] \<and> 1 < length [7, 3, 5 :: nat]
   \<and> make_heap_cb (<) record_move [7, 3, 5 :: nat] [] = ([7, 3, 5], [(7, 0, 0)])
   \<and> exact_stream (tagged [7, 3, 5 :: nat]) [(7, 0), (3, 1), (5, 2)] 0 [((7, 0), 0, 0)]
   \<and> push_heap_cb (<) record_move [7, 3, 5 :: nat] [] = Inr ([7, 3, 5], [(5, 2, 2)])
   \<and> exact_stream (tagged [7, 3, 5 :: nat]) [(7, 0), (3, 1), (5, 2)] 2 [((5, 2), 2, 2)]
   \<and> pop_heap_at_cb (<) record_move [7, 3, 5 :: nat] [] 1 = Inr ([7, 5, 3], [(5, 2, 1), (3, 1, 2)])
   \<and> exact_stream (tagged [7, 3, 5 :: nat]) [(7, 0), (5, 2), (3, 1)] 1
        [((5, 2), 2, 1), ((3, 1), 1, 2)]"
proof -
  note T = observer_stream_exact [of "(<)" "[7, 3, 5 :: nat]" 1]
  have n: "0 < length [7, 3, 5 :: nat]" "1 < length [7, 3, 5 :: nat]" by simp_all
  have e1: "make_heap_cb (on_value (<)) record_move (tagged [7, 3, 5 :: nat]) []
              = ([(7, 0), (3, 1), (5, 2)], [((7, 0), 0, 0)])"
    by code_simp
  have e2: "push_heap_cb (on_value (<)) record_move (tagged [7, 3, 5 :: nat]) []
              = Inr ([(7, 0), (3, 1), (5, 2)], [((5, 2), 2, 2)])"
    by code_simp
  have e3: "pop_heap_at_cb (on_value (<)) record_move (tagged [7, 3, 5 :: nat]) [] 1
              = Inr ([(7, 0), (5, 2), (3, 1)], [((5, 2), 2, 1), ((3, 1), 1, 2)])"
    by code_simp
  have t: "tagged [7, 3, 5 :: nat] = [(7, 0), (3, 1), (5, 2)]" by code_simp
  from T [THEN conjunct1] have
    "make_heap_cb (<) record_move [7, 3, 5 :: nat] [] = ([7, 3, 5], [(7, 0, 0)])
     \<and> exact_stream (tagged [7, 3, 5 :: nat]) [(7, 0), (3, 1), (5, 2)] 0 [((7, 0), 0, 0)]"
    unfolding e1 by (auto simp: untag_def map_eq_Cons_conv t)
  moreover from T [THEN conjunct2, THEN conjunct2, THEN conjunct1] n have
    "push_heap_cb (<) record_move [7, 3, 5 :: nat] [] = Inr ([7, 3, 5], [(5, 2, 2)])
     \<and> exact_stream (tagged [7, 3, 5 :: nat]) [(7, 0), (3, 1), (5, 2)] 2 [((5, 2), 2, 2)]"
    unfolding e2 by (auto simp: untag_def numeral_2_eq_2)
  moreover from T [THEN conjunct2, THEN conjunct2, THEN conjunct2, THEN conjunct2, THEN conjunct1] n
  have
    "pop_heap_at_cb (<) record_move [7, 3, 5 :: nat] [] 1 = Inr ([7, 5, 3], [(5, 2, 1), (3, 1, 2)])
     \<and> exact_stream (tagged [7, 3, 5 :: nat]) [(7, 0), (5, 2), (3, 1)] 1
          [((5, 2), 2, 1), ((3, 1), 1, 2)]"
    unfolding e3 by (auto simp: untag_def)
  ultimately show ?thesis using n by blast
qed

end
